theory Spec2Isabelle
  imports Complex_Main "HOL-Library.Log_Nat"
begin

section \<open>JavaScript numbers\<close>

text \<open>
  The histogram code of \<^verbatim>\<open>frontend/js/charts.js\<close> (and its copy in \<^verbatim>\<open>frontend/js/ui.js\<close>)
  computes on JavaScript numbers, which are IEEE-754 binary64 values. A number is modelled as
  \<open>NaN\<close>, one of the two infinities, or a finite value carried as the real it denotes.
  Every arithmetic operation rounds its exact result to binary64 (\<open>rnd\<close> below), and an input
  of the code is a binary64 value (\<open>finite_double\<close> below).
  The two zeros are identified: the code compares with \<^verbatim>\<open>===\<close>, \<^verbatim>\<open><\<close> and \<^verbatim>\<open>>\<close>, which do not
  distinguish them, and never divides by a value that can be the negative zero.
\<close>

datatype jsnum = NaN | NegInf | Fin real | PosInf

text \<open>Rounding of an integer-scaled value to the nearest integer, ties to even.\<close>

definition rhe :: "real \<Rightarrow> int" where
  "rhe x = (let f = \<lfloor>x\<rfloor>; d = x - of_int f in
     if d < 1/2 then f else if 1/2 < d then f + 1 else if even f then f else f + 1)"

text \<open>The binary exponent of a positive real: \<open>2 powi expo a \<le> a < 2 powi (expo a + 1)\<close>.\<close>

definition expo :: "real \<Rightarrow> int" where
  "expo a = (if 1 \<le> a then bitlen \<lfloor>a\<rfloor> - 1 else - bitlen (\<lceil>1 / a\<rceil> - 1))"

text \<open>
  The spacing of binary64 values around \<open>a\<close>: 53 significant bits, and the fixed spacing
  \<open>2 powi (- 1074)\<close> of the subnormal range below \<open>2 powi (- 1022)\<close>.
\<close>

definition ulp :: "real \<Rightarrow> real" where
  "ulp a = 2 powi (max (expo a) (- 1022) - 52)"

definition rpos :: "real \<Rightarrow> real" where
  "rpos a = of_int (rhe (a / ulp a)) * ulp a"

text \<open>
  \<open>rnd x\<close> is the binary64 result of an operation whose exact result is \<open>x\<close>: round to
  nearest, ties to even, overflow to an infinity, underflow through the subnormals to zero.
\<close>

definition overflow_bound :: real where
  "overflow_bound = 2 ^ 1024"

definition rnd :: "real \<Rightarrow> jsnum" where
  "rnd x = (if x = 0 then Fin 0 else
     let r = rpos \<bar>x\<bar> in
     if overflow_bound \<le> r then (if 0 < x then PosInf else NegInf) else Fin (sgn x * r))"

text \<open>The reals that are binary64 values: those that rounding leaves as they are.\<close>

definition is_double :: "real \<Rightarrow> bool" where
  "is_double x \<longleftrightarrow> rnd x = Fin x"

text \<open>\<^verbatim>\<open>Number.MIN_VALUE\<close> (printed \<^verbatim>\<open>5e-324\<close>) and \<^verbatim>\<open>Number.MAX_VALUE\<close>.\<close>

definition MIN_VALUE :: real where
  "MIN_VALUE = 2 powi (- 1074)"

definition MAX_VALUE :: real where
  "MAX_VALUE = (2 ^ 53 - 1) * 2 ^ 971"

fun is_fin :: "jsnum \<Rightarrow> bool" where
  "is_fin (Fin x) = True"
| "is_fin _ = False"

text \<open>A finite number as the code can receive it: a binary64 value.\<close>

fun finite_double :: "jsnum \<Rightarrow> bool" where
  "finite_double (Fin x) = is_double x"
| "finite_double _ = False"

fun js_neg :: "jsnum \<Rightarrow> jsnum" where
  "js_neg NaN = NaN"
| "js_neg NegInf = PosInf"
| "js_neg (Fin x) = Fin (- x)"
| "js_neg PosInf = NegInf"

fun js_add :: "jsnum \<Rightarrow> jsnum \<Rightarrow> jsnum" where
  "js_add (Fin a) (Fin b) = rnd (a + b)"
| "js_add NaN _ = NaN"
| "js_add _ NaN = NaN"
| "js_add PosInf NegInf = NaN"
| "js_add NegInf PosInf = NaN"
| "js_add PosInf _ = PosInf"
| "js_add NegInf _ = NegInf"
| "js_add _ PosInf = PosInf"
| "js_add _ NegInf = NegInf"

definition js_sub :: "jsnum \<Rightarrow> jsnum \<Rightarrow> jsnum" where
  "js_sub a b = js_add a (js_neg b)"

fun js_mul :: "jsnum \<Rightarrow> jsnum \<Rightarrow> jsnum" where
  "js_mul (Fin a) (Fin b) = rnd (a * b)"
| "js_mul NaN _ = NaN"
| "js_mul _ NaN = NaN"
| "js_mul (Fin a) PosInf = (if a = 0 then NaN else if 0 < a then PosInf else NegInf)"
| "js_mul (Fin a) NegInf = (if a = 0 then NaN else if 0 < a then NegInf else PosInf)"
| "js_mul PosInf (Fin b) = (if b = 0 then NaN else if 0 < b then PosInf else NegInf)"
| "js_mul NegInf (Fin b) = (if b = 0 then NaN else if 0 < b then NegInf else PosInf)"
| "js_mul PosInf PosInf = PosInf"
| "js_mul NegInf NegInf = PosInf"
| "js_mul PosInf NegInf = NegInf"
| "js_mul NegInf PosInf = NegInf"

text \<open>Division; a zero divisor is the positive zero (see above).\<close>

fun js_div :: "jsnum \<Rightarrow> jsnum \<Rightarrow> jsnum" where
  "js_div (Fin a) (Fin b) =
     (if b = 0 then (if a = 0 then NaN else if 0 < a then PosInf else NegInf) else rnd (a / b))"
| "js_div NaN _ = NaN"
| "js_div _ NaN = NaN"
| "js_div (Fin a) PosInf = Fin 0"
| "js_div (Fin a) NegInf = Fin 0"
| "js_div PosInf (Fin b) = (if 0 \<le> b then PosInf else NegInf)"
| "js_div NegInf (Fin b) = (if 0 \<le> b then NegInf else PosInf)"
| "js_div PosInf PosInf = NaN"
| "js_div PosInf NegInf = NaN"
| "js_div NegInf PosInf = NaN"
| "js_div NegInf NegInf = NaN"

text \<open>The comparisons \<^verbatim>\<open><\<close>, \<^verbatim>\<open><=\<close> and \<^verbatim>\<open>===\<close>: every comparison with \<open>NaN\<close> is false.\<close>

fun js_lt :: "jsnum \<Rightarrow> jsnum \<Rightarrow> bool" where
  "js_lt (Fin a) (Fin b) = (a < b)"
| "js_lt NaN _ = False"
| "js_lt _ NaN = False"
| "js_lt NegInf NegInf = False"
| "js_lt NegInf _ = True"
| "js_lt PosInf _ = False"
| "js_lt (Fin a) NegInf = False"
| "js_lt (Fin a) PosInf = True"

definition js_le :: "jsnum \<Rightarrow> jsnum \<Rightarrow> bool" where
  "js_le a b = (a \<noteq> NaN \<and> b \<noteq> NaN \<and> \<not> js_lt b a)"

definition js_eq :: "jsnum \<Rightarrow> jsnum \<Rightarrow> bool" where
  "js_eq a b = (a \<noteq> NaN \<and> a = b)"

text \<open>
  \<^verbatim>\<open>Math.min\<close> and \<^verbatim>\<open>Math.max\<close>: \<open>NaN\<close> if an argument is; with no argument, the
  infinities. The code spreads the whole array into the call; the limit an engine puts on the
  number of arguments is outside the model.
\<close>

definition Math_min2 :: "jsnum \<Rightarrow> jsnum \<Rightarrow> jsnum" where
  "Math_min2 a b = (if a = NaN \<or> b = NaN then NaN else if js_lt b a then b else a)"

definition Math_max2 :: "jsnum \<Rightarrow> jsnum \<Rightarrow> jsnum" where
  "Math_max2 a b = (if a = NaN \<or> b = NaN then NaN else if js_lt a b then b else a)"

definition Math_min :: "jsnum list \<Rightarrow> jsnum" where
  "Math_min xs = foldl Math_min2 PosInf xs"

definition Math_max :: "jsnum list \<Rightarrow> jsnum" where
  "Math_max xs = foldl Math_max2 NegInf xs"

fun Math_floor :: "jsnum \<Rightarrow> jsnum" where
  "Math_floor (Fin x) = Fin (of_int \<lfloor>x\<rfloor>)"
| "Math_floor v = v"

fun Math_ceil :: "jsnum \<Rightarrow> jsnum" where
  "Math_ceil (Fin x) = Fin (of_int \<lceil>x\<rceil>)"
| "Math_ceil v = v"

fun Math_sqrt :: "jsnum \<Rightarrow> jsnum" where
  "Math_sqrt (Fin x) = (if x < 0 then NaN else rnd (sqrt x))"
| "Math_sqrt PosInf = PosInf"
| "Math_sqrt v = NaN"

section \<open>Arrays\<close>

text \<open>
  \<^verbatim>\<open>Array(len)\<close> throws a \<^verbatim>\<open>RangeError\<close> unless \<open>len\<close> is an integer between 0 and
  \<open>2^32 - 1\<close>. A property key is an array index when it is an integer between 0 and \<open>2^32 - 2\<close>.
\<close>

datatype error = RangeError

definition array_length :: "jsnum \<Rightarrow> nat option" where
  "array_length v = (case v of
       Fin k \<Rightarrow> if 0 \<le> k \<and> k < 2 ^ 32 \<and> of_int \<lfloor>k\<rfloor> = k then Some (nat \<lfloor>k\<rfloor>) else None
     | _ \<Rightarrow> None)"

definition array_index :: "jsnum \<Rightarrow> nat option" where
  "array_index v = (case v of
       Fin k \<Rightarrow> if 0 \<le> k \<and> k < 2 ^ 32 - 1 \<and> of_int \<lfloor>k\<rfloor> = k then Some (nat \<lfloor>k\<rfloor>) else None
     | _ \<Rightarrow> None)"

text \<open>
  \<^verbatim>\<open>bins[binIndex]++\<close> on the array of counts. The counts are at most the number of samples,
  far below \<open>2^53\<close>, so the increment is exact and a count is a natural number. A key that is no
  array index (\<open>NaN\<close>) names an ordinary property: the write leaves every element as it is.
  An index at or beyond the length makes JavaScript extend the array up to that index (with
  holes, and \<open>NaN\<close> in the written slot); the model extends the list by as many zero entries.
\<close>

definition incr_bin :: "nat list \<Rightarrow> jsnum \<Rightarrow> nat list" where
  "incr_bin bins binIndex = (case array_index binIndex of
       None \<Rightarrow> bins
     | Some k \<Rightarrow> if k < length bins then bins[k := Suc (bins ! k)]
                else bins @ replicate (Suc k - length bins) 0)"

section \<open>The histogram binning of createOrUpdateReturnHistogram\<close>

text \<open>
  \<^verbatim>\<open>const numBins = Math.min(20, Math.max(10, Math.ceil(Math.sqrt(dailyReturns.length) / 2)));\<close>
  The length of an array is below \<open>2^32\<close> and so is a number exactly. \<^verbatim>\<open>Math.sqrt\<close> is the
  correctly rounded square root of IEEE-754.
\<close>

definition numBins :: "nat \<Rightarrow> jsnum" where
  "numBins n =
     Math_min2 (Fin 20) (Math_max2 (Fin 10) (Math_ceil (js_div (Math_sqrt (Fin (real n))) (Fin 2))))"

text \<open>\<^verbatim>\<open>const binWidth = range > 0 ? range / numBins : 1;\<close>\<close>

definition binWidth :: "jsnum \<Rightarrow> jsnum \<Rightarrow> jsnum" where
  "binWidth retRange nB = (if js_lt (Fin 0) retRange then js_div retRange nB else Fin 1)"

record edge =
  edge_start :: jsnum
  edge_end :: jsnum

text \<open>The body of the loop over \<open>i\<close> that pushes \<^verbatim>\<open>{ start: binStart, end: binEnd }\<close>.\<close>

definition binEdge :: "jsnum \<Rightarrow> jsnum \<Rightarrow> jsnum \<Rightarrow> jsnum \<Rightarrow> nat \<Rightarrow> edge" where
  "binEdge minReturn maxReturn nB bw i =
     (let binStart = js_add minReturn (js_mul (Fin (real i)) bw);
          binEnd = (if js_eq (Fin (real i)) (js_sub nB (Fin 1)) then maxReturn
                    else js_add binStart bw)
      in \<lparr>edge_start = binStart, edge_end = binEnd\<rparr>)"

text \<open>
  The body of \<^verbatim>\<open>dailyReturns.forEach(ret => ...)\<close>: first the index computed when
  \<open>binWidth\<close> is not zero (floor, clamp, and the check that moves the maximum to the last bin),
  then the whole body.
\<close>

definition binIndex :: "jsnum \<Rightarrow> jsnum \<Rightarrow> jsnum \<Rightarrow> jsnum \<Rightarrow> jsnum \<Rightarrow> jsnum" where
  "binIndex minReturn maxReturn nB bw ret =
     (let i0 = Math_floor (js_div (js_sub ret minReturn) bw);
          i1 = Math_max2 (Fin 0) (Math_min2 (js_sub nB (Fin 1)) i0)
      in if js_eq ret maxReturn \<and> js_lt i1 (js_sub nB (Fin 1)) then js_sub nB (Fin 1) else i1)"

definition assign :: "jsnum \<Rightarrow> jsnum \<Rightarrow> jsnum \<Rightarrow> jsnum \<Rightarrow> nat list \<Rightarrow> jsnum \<Rightarrow> nat list" where
  "assign minReturn maxReturn nB bw bins ret =
     (if js_eq bw (Fin 0) then (if js_eq ret minReturn then incr_bin bins (Fin 0) else bins)
      else incr_bin bins (binIndex minReturn maxReturn nB bw ret))"

text \<open>
  A label is the text \<^verbatim>\<open>`${binStart.toFixed(2)}%`\<close>. \<^verbatim>\<open>Number.prototype.toFixed\<close> belongs to
  the language; the label is kept as the number it formats.
\<close>

datatype label = PercentFixed2 jsnum

record histogram =
  h_numBins :: jsnum
  h_binWidth :: jsnum
  labels :: "label list"
  bins :: "nat list"
  binEdges :: "edge list"

text \<open>
  Lines 149 to 177 of \<^verbatim>\<open>charts.js\<close> (309 to 344 of \<^verbatim>\<open>ui.js\<close>, the same computation).
  \<^verbatim>\<open>Array(numBins)\<close> is the one place that can throw.
\<close>

definition histogramBins :: "jsnum list \<Rightarrow> error + histogram" where
  "histogramBins dailyReturns =
     (let minReturn = Math_min dailyReturns;
          maxReturn = Math_max dailyReturns;
          nB = numBins (length dailyReturns);
          retRange = js_sub maxReturn minReturn;
          bw = binWidth retRange nB
      in case array_length nB of
           None \<Rightarrow> Inl RangeError
         | Some nb \<Rightarrow>
             Inr \<lparr>h_numBins = nB, h_binWidth = bw,
                  labels = map (\<lambda>i. PercentFixed2 (edge_start (binEdge minReturn maxReturn nB bw i))) [0..<nb],
                  bins = foldl (assign minReturn maxReturn nB bw) (replicate nb 0) dailyReturns,
                  binEdges = map (binEdge minReturn maxReturn nB bw) [0..<nb]\<rparr>)"

text \<open>The bin width as a function of the input alone (lines 149 to 153).\<close>

definition binWidthOf :: "jsnum list \<Rightarrow> jsnum" where
  "binWidthOf dailyReturns =
     binWidth (js_sub (Math_max dailyReturns) (Math_min dailyReturns)) (numBins (length dailyReturns))"

section \<open>The page around the binning\<close>

text \<open>
  What \<^verbatim>\<open>createOrUpdateReturnHistogram\<close> reads and writes besides its argument: whether the
  canvas element exists, the module variable \<^verbatim>\<open>histogramChart\<close> (\<open>None\<close> for \<^verbatim>\<open>null\<close>;
  a chart is kept as the data it was built from), the text last drawn on the cleared canvas,
  the console, and whether the two calls into the charting library throw.
\<close>

record world =
  canvas :: bool
  histogramChart :: "histogram option"
  canvasText :: "string option"
  console :: "string list"
  destroyThrows :: bool
  chartThrows :: bool

text \<open>
  \<^verbatim>\<open>destroyHistogramChart\<close>: the variable is reset to \<^verbatim>\<open>null\<close> whether or not the
  \<^verbatim>\<open>destroy\<close> method of the library throws (the field \<open>destroyThrows\<close>).
\<close>

definition destroyHistogramChart :: "world \<Rightarrow> world" where
  "destroyHistogramChart w = (case histogramChart w of
       None \<Rightarrow> w
     | Some c \<Rightarrow>
         if destroyThrows w
         then w\<lparr>histogramChart := None, console := console w @ [''Error destroying histogram chart:'']\<rparr>
         else w\<lparr>histogramChart := None, console := console w @ [''Histogram chart destroyed.'']\<rparr>)"

text \<open>
  \<open>dailyReturns\<close> is \<open>None\<close> for \<^verbatim>\<open>null\<close> or \<^verbatim>\<open>undefined\<close>. A \<^verbatim>\<open>RangeError\<close> of the
  binning is not caught here and leaves the function. The constructor of the charting library
  is called inside \<^verbatim>\<open>try\<close>; whether it throws is the field \<open>chartThrows\<close>.
\<close>

definition createOrUpdateReturnHistogram :: "world \<Rightarrow> jsnum list option \<Rightarrow> error + world" where
  "createOrUpdateReturnHistogram w dailyReturns =
     (if \<not> canvas w
      then Inr (w\<lparr>console := console w @ [''Canvas element #returnHistogramChart not found!'']\<rparr>)
      else
        let w1 = destroyHistogramChart w in
        case dailyReturns of
          None \<Rightarrow> Inr (w1\<lparr>canvasText := Some ''No return data available.'',
                         console := console w1 @ [''No daily returns data available for histogram.'']\<rparr>)
        | Some [] \<Rightarrow> Inr (w1\<lparr>canvasText := Some ''No return data available.'',
                         console := console w1 @ [''No daily returns data available for histogram.'']\<rparr>)
        | Some (r # rs) \<Rightarrow>
            (case histogramBins (r # rs) of
               Inl e \<Rightarrow> Inl e
             | Inr h \<Rightarrow>
                 if chartThrows w
                 then Inr (w1\<lparr>canvasText := Some ''Error creating histogram.'',
                              console := console w1 @ [''Error creating histogram:'']\<rparr>)
                 else Inr (w1\<lparr>histogramChart := Some h,
                              console := console w1 @ [''Return histogram created/updated.'']\<rparr>)))"

section \<open>The policies as the specification words them\<close>

text \<open>The bin-count policy \<open>clamp(ceil(sqrt(n) / 2), 10, 20)\<close>, on exact reals.\<close>

definition spec_numBins :: "nat \<Rightarrow> int" where
  "spec_numBins n = min 20 (max 10 \<lceil>sqrt (real n) / 2\<rceil>)"

section \<open>Facts about rounding\<close>

lemma rhe_of_int: "rhe (of_int k) = k"
  by (simp add: rhe_def)

lemma rhe_mono: "x \<le> y \<Longrightarrow> rhe x \<le> rhe y"
proof -
  assume xy: "x \<le> y"
  have fl: "\<lfloor>x\<rfloor> \<le> \<lfloor>y\<rfloor>" using xy by (rule floor_mono)
  have bx: "rhe x \<le> \<lfloor>x\<rfloor> + 1" and by': "\<lfloor>y\<rfloor> \<le> rhe y"
    by (simp_all add: rhe_def Let_def)
  show ?thesis
  proof (cases "\<lfloor>x\<rfloor> = \<lfloor>y\<rfloor>")
    case True
    then show ?thesis using xy by (auto simp: rhe_def Let_def)
  next
    case False
    then have "\<lfloor>x\<rfloor> + 1 \<le> \<lfloor>y\<rfloor>" using fl by simp
    then show ?thesis using bx by' by linarith
  qed
qed

lemma rhe_bounds: "real_of_int (rhe x) \<le> x + 1/2" "x - 1/2 \<le> real_of_int (rhe x)"
  by (auto simp: rhe_def Let_def) linarith+


lemma pow2_less_cancel: "(2::real) powi m < 2 powi n \<Longrightarrow> m < n"
  by (rule ccontr) (use power_int_increasing[of n m "2::real"] in simp)

lemma int_pow_real: "(2::int) ^ k \<le> n \<Longrightarrow> (2::real) ^ k \<le> of_int n"
  by (metis of_int_le_iff of_int_numeral of_int_power)

lemma int_pow_real2: "n < (2::int) ^ k \<Longrightarrow> of_int n < (2::real) ^ k"
  by (metis of_int_less_iff of_int_numeral of_int_power)

lemma expo_ge1:
  assumes "1 \<le> a"
  shows "2 powi expo a \<le> a" and "a < 2 powi (expo a + 1)"
proof -
  from assms have n: "0 < \<lfloor>a\<rfloor>" by simp
  have b1: "1 \<le> bitlen \<lfloor>a\<rfloor>" using n by (auto simp: bitlen_alt_def)
  have e: "expo a = bitlen \<lfloor>a\<rfloor> - 1" using assms by (simp add: expo_def)
  have "(2::real) ^ nat (bitlen \<lfloor>a\<rfloor> - 1) \<le> of_int \<lfloor>a\<rfloor>"
    using bitlen_bounds[OF n] by (intro int_pow_real) simp
  also have "\<dots> \<le> a" by simp
  finally show "2 powi expo a \<le> a" using b1 by (simp add: e power_int_def)
  have "\<lfloor>a\<rfloor> + 1 \<le> 2 ^ nat (bitlen \<lfloor>a\<rfloor>)" using bitlen_bounds[OF n] by simp
  then have "of_int (\<lfloor>a\<rfloor> + 1) \<le> (2::real) ^ nat (bitlen \<lfloor>a\<rfloor>)"
    by (metis of_int_le_iff of_int_numeral of_int_power)
  moreover have "a < of_int (\<lfloor>a\<rfloor> + 1)" by linarith
  ultimately have "a < (2::real) ^ nat (bitlen \<lfloor>a\<rfloor>)" by linarith
  then show "a < 2 powi (expo a + 1)" using b1 by (simp add: e power_int_def)
qed

lemma expo_lt1:
  assumes "0 < a" "a < 1"
  shows "2 powi expo a \<le> a" and "a < 2 powi (expo a + 1)"
proof -
  define n where "n = \<lceil>1 / a\<rceil>"
  define b where "b = bitlen (n - 1)"
  have y1: "1 < 1 / a" using assms by simp
  then have n2: "2 \<le> n" unfolding n_def by linarith
  then have n0: "0 < n - 1" by simp
  have b1: "1 \<le> b" using n0 by (auto simp: b_def bitlen_alt_def)
  have e: "expo a = - b" using assms by (simp add: expo_def b_def n_def)
  have lo: "(2::real) ^ nat (b - 1) \<le> of_int (n - 1)"
    using bitlen_bounds[OF n0] unfolding b_def by (intro int_pow_real) simp
  have "n \<le> 2 ^ nat b" using bitlen_bounds[OF n0] unfolding b_def by simp
  then have hi: "of_int n \<le> (2::real) ^ nat b"
    by (metis of_int_le_iff of_int_numeral of_int_power)
  have "1 / a \<le> of_int n" unfolding n_def by linarith
  with hi have "1 / a \<le> 2 ^ nat b" by linarith
  then have "1 / 2 ^ nat b \<le> a" using assms by (simp add: field_simps)
  then show "2 powi expo a \<le> a" using b1 by (simp add: e power_int_def inverse_eq_divide power_one_over flip: power_inverse)
  have "of_int (n - 1) < 1 / a" unfolding n_def by linarith
  with lo have "2 ^ nat (b - 1) < 1 / a" by linarith
  then have "a < 1 / 2 ^ nat (b - 1)" using assms by (simp add: field_simps)
  moreover have "(2::real) powi (- b + 1) = 1 / 2 ^ nat (b - 1)"
    using b1 by (simp add: power_int_def inverse_eq_divide power_one_over nat_diff_distrib flip: power_inverse) 
  ultimately show "a < 2 powi (expo a + 1)" by (simp add: e)
qed

lemma expo_bounds:
  assumes "0 < a"
  shows "2 powi expo a \<le> a" and "a < 2 powi (expo a + 1)"
  using assms expo_ge1[of a] expo_lt1[of a] by (cases "1 \<le> a"; simp)+

lemma expo_unique: 
  assumes "2 powi e \<le> a" "a < 2 powi (e + 1)" shows "expo a = e"
proof -
  have "(0::real) < 2 powi e" by simp
  then have a: "0 < a" using assms(1) by linarith
  have "2 powi expo a < (2::real) powi (e + 1)" using expo_bounds(1)[OF a] assms(2) by linarith
  then have 1: "expo a < e + 1" by (rule pow2_less_cancel)
  have "2 powi e < (2::real) powi (expo a + 1)" using expo_bounds(2)[OF a] assms(1) by linarith
  then have "e < expo a + 1" by (rule pow2_less_cancel)
  with 1 show ?thesis by simp
qed

lemma expo_mono: 
  assumes "0 < a" "a \<le> b" shows "expo a \<le> expo b"
proof -
  have "2 powi expo a < (2::real) powi (expo b + 1)" 
    using expo_bounds(1)[OF assms(1)] expo_bounds(2)[of b] assms by linarith
  then have "expo a < expo b + 1" by (rule pow2_less_cancel)
  then show ?thesis by simp
qed

lemma ulp_pos: "0 < ulp a"
  by (simp add: ulp_def)


lemma rhe_nonneg: "0 \<le> x \<Longrightarrow> 0 \<le> rhe x"
  using rhe_mono[of 0 x] rhe_of_int[of 0] by simp

lemma rpos_nonneg: "0 \<le> a \<Longrightarrow> 0 \<le> rpos a"
  unfolding rpos_def using ulp_pos[of a] rhe_nonneg[of "a / ulp a"] by simp

lemma ulp_mult: "2 ^ 52 * ulp a = 2 powi (max (expo a) (- 1022))"
proof -
  have "(2::real) powi (max (expo a) (- 1022) - 52 + 52) = 2 powi (max (expo a) (- 1022) - 52) * 2 powi 52"
    by (rule power_int_add) simp
  then show ?thesis by (simp add: ulp_def)
qed

lemma rpos_upper:
  assumes "0 < a" shows "rpos a \<le> 2 powi (max (expo a) (- 1022) + 1)"
proof -
  let ?E = "max (expo a) (- 1022)"
  have "a < 2 powi (expo a + 1)" using expo_bounds(2)[OF assms] .
  also have "\<dots> \<le> 2 powi (?E + 1)" by (intro power_int_increasing) simp_all
  also have "\<dots> = 2 * 2 powi ?E" by (simp add: power_int_add)
  also have "\<dots> = 2 ^ 53 * ulp a" using ulp_mult[of a] by simp
  finally have "a / ulp a \<le> 2 ^ 53" using ulp_pos[of a] by (simp add: field_simps)
  then have "rhe (a / ulp a) \<le> rhe (of_int (2 ^ 53))" by (intro rhe_mono) simp
  then have "rhe (a / ulp a) \<le> 2 ^ 53" by (simp only: rhe_of_int)
  then have "real_of_int (rhe (a / ulp a)) \<le> 2 ^ 53" by (metis of_int_le_iff of_int_numeral of_int_power)
  then have "rpos a \<le> 2 ^ 53 * ulp a" unfolding rpos_def using ulp_pos[of a] by (intro mult_right_mono) simp_all
  also have "\<dots> = 2 * 2 powi ?E" using ulp_mult[of a] by simp
  also have "\<dots> = 2 powi (?E + 1)" by (simp add: power_int_add)
  finally show ?thesis .
qed

lemma rpos_lower:
  assumes "0 < a" "- 1022 \<le> expo a" shows "2 powi (expo a) \<le> rpos a"
proof -
  have E: "max (expo a) (- 1022) = expo a" using assms by simp
  have "2 ^ 52 * ulp a \<le> a" using ulp_mult[of a] expo_bounds(1)[OF assms(1)] by (simp add: E)
  then have "2 ^ 52 \<le> a / ulp a" using ulp_pos[of a] by (simp add: field_simps)
  then have "rhe (of_int (2 ^ 52)) \<le> rhe (a / ulp a)" by (intro rhe_mono) simp
  then have "2 ^ 52 \<le> rhe (a / ulp a)" by (simp only: rhe_of_int)
  then have "2 ^ 52 \<le> real_of_int (rhe (a / ulp a))" by (metis of_int_le_iff of_int_numeral of_int_power)
  then have "2 ^ 52 * ulp a \<le> rpos a" unfolding rpos_def using ulp_pos[of a] by (intro mult_right_mono) simp_all
  then show ?thesis using ulp_mult[of a] by (simp add: E)
qed

lemma rpos_mono:
  assumes "0 < a" "a \<le> b" shows "rpos a \<le> rpos b"
proof -
  let ?Ea = "max (expo a) (- 1022)" and ?Eb = "max (expo b) (- 1022)"
  have b: "0 < b" using assms by simp
  have le: "?Ea \<le> ?Eb" using expo_mono[OF assms] by simp
  show ?thesis
  proof (cases "?Ea = ?Eb")
    case True
    then have u: "ulp a = ulp b" by (simp add: ulp_def)
    have "a / ulp b \<le> b / ulp b" using assms ulp_pos[of b] by (simp add: divide_right_mono)
    then have "rhe (a / ulp b) \<le> rhe (b / ulp b)" by (rule rhe_mono)
    then show ?thesis unfolding rpos_def u using ulp_pos[of b] by (intro mult_right_mono) simp_all
  next
    case False
    with le have lt: "?Ea + 1 \<le> ?Eb" by simp
    then have eb: "- 1022 \<le> expo b" "?Eb = expo b" by auto
    have "rpos a \<le> 2 powi (?Ea + 1)" by (rule rpos_upper[OF assms(1)])
    also have "\<dots> \<le> 2 powi ?Eb" using lt by (intro power_int_increasing) simp_all
    also have "\<dots> \<le> rpos b" using rpos_lower[OF b eb(1)] by (simp add: eb(2))
    finally show ?thesis .
  qed
qed


lemma rnd_zero: "rnd 0 = Fin 0"
  by (simp add: rnd_def)

lemma rnd_pos: "0 < x \<Longrightarrow> rnd x = (if overflow_bound \<le> rpos x then PosInf else Fin (rpos x))"
  by (simp add: rnd_def Let_def)

lemma rnd_neg: "x < 0 \<Longrightarrow> rnd x = (if overflow_bound \<le> rpos (- x) then NegInf else Fin (- rpos (- x)))"
  by (simp add: rnd_def Let_def)

lemma rnd_not_NaN: "rnd x \<noteq> NaN"
  by (simp add: rnd_def Let_def)

lemma rnd_nonneg: "0 \<le> x \<Longrightarrow> rnd x = PosInf \<or> (\<exists>r. rnd x = Fin r \<and> 0 \<le> r)"
  using rpos_nonneg[of x] by (cases "x = 0") (auto simp: rnd_zero rnd_pos)

lemma rnd_mono: 
  assumes "x \<le> y" shows "js_le (rnd x) (rnd y)"
proof -
  consider "0 < x" | "x = 0" "0 < y" | "x = 0" "y = 0" | "x < 0" "0 < y" | "x < 0" "y = 0" | "y < 0"
    using assms by linarith
  then show ?thesis
  proof cases
    case 1
    then have "0 < y" using assms by simp
    with 1 rpos_mono[OF 1 assms] show ?thesis by (auto simp: rnd_pos js_le_def)
  next
    case 2
    with rpos_nonneg[of y] show ?thesis by (auto simp: rnd_pos rnd_zero js_le_def)
  next
    case 3
    then show ?thesis by (simp add: rnd_zero js_le_def)
  next
    case 4
    with rpos_nonneg[of y] rpos_nonneg[of "- x"] show ?thesis by (auto simp: rnd_pos rnd_neg js_le_def)
  next
    case 5
    with rpos_nonneg[of "- x"] show ?thesis by (auto simp: rnd_neg rnd_zero js_le_def)
  next
    case 6
    then have x: "x < 0" and yx: "0 < - y" "- y \<le> - x" using assms by simp_all
    from rpos_mono[OF yx] x 6 show ?thesis by (auto simp: rnd_neg js_le_def)
  qed
qed

lemma pow2_add: "(2::real) powi (a + b) = 2 powi a * 2 powi b"
  by (rule power_int_add) simp

lemma rpos_exact:
  assumes "0 < m" "m < 2 ^ 53" "- 1074 \<le> j"
  shows "rpos (of_int m * 2 powi j) = of_int m * 2 powi j"
proof -
  define a :: real where "a = of_int m * 2 powi j"
  define E where "E = max (expo a) (- 1022)"
  define d where "d = j - (E - 52)"
  have a0: "0 < a" using assms(1) by (simp add: a_def)
  have m53: "real_of_int m < 2 ^ 53" using assms(2) by (rule int_pow_real2)
  have "a < 2 ^ 53 * 2 powi j"
    unfolding a_def using m53 by (intro mult_strict_right_mono) simp_all
  also have "\<dots> = 2 powi (53 + j)" by (simp only: pow2_add power_int_numeral)
  finally have "2 powi expo a < (2::real) powi (53 + j)" using expo_bounds(1)[OF a0] by linarith
  then have "expo a < 53 + j" by (rule pow2_less_cancel)
  then have d: "0 \<le> d" using assms(3) by (simp add: E_def d_def)
  have u: "ulp a = 2 powi (E - 52)" by (simp only: ulp_def E_def)
  have "(2::real) powi j = 2 powi (d + (E - 52))" by (simp add: d_def)
  also have "\<dots> = 2 powi d * 2 powi (E - 52)" by (rule pow2_add)
  also have "(2::real) powi d = 2 ^ nat d" using d by (rule power_int_nonneg_exp)
  finally have pj: "(2::real) powi j = 2 ^ nat d * ulp a" by (simp only: u)
  have "a = of_int m * 2 powi j" by (rule a_def)
  then have a_eq: "a = of_int m * 2 ^ nat d * ulp a" by (simp only: pj mult.assoc)
  have "a / ulp a = of_int m * 2 ^ nat d"
    using ulp_pos[of a] by (subst a_eq) simp
  also have "\<dots> = of_int (m * 2 ^ nat d)" by simp
  finally have "rhe (a / ulp a) = m * 2 ^ nat d" by (simp only: rhe_of_int)
  then have "rpos a = of_int m * 2 ^ nat d * ulp a" by (simp add: rpos_def)
  also have "\<dots> = a" by (rule a_eq[symmetric])
  finally show ?thesis by (simp only: a_def)
qed

lemma is_double_scaled:
  assumes mj: "\<bar>m\<bar> < 2 ^ 53" "- 1074 \<le> j" and lt: "\<bar>of_int m * 2 powi j\<bar> < overflow_bound"
  shows "is_double (of_int m * 2 powi j)"
proof -
  define x :: real where "x = of_int m * 2 powi j"
  have lt': "\<bar>x\<bar> < overflow_bound" using lt by (simp only: x_def)
  consider "m = 0" | "0 < m" | "m < 0" by linarith
  then have "rnd x = Fin x"
  proof cases
    case 1
    then show ?thesis by (simp add: x_def rnd_zero)
  next
    case 2
    then have x: "0 < x" by (simp add: x_def)
    have "rpos x = x" unfolding x_def using 2 mj by (intro rpos_exact) simp_all
    then show ?thesis using x lt' by (simp add: rnd_pos)
  next
    case 3
    then have x: "x < 0" by (simp add: x_def mult_neg_pos)
    have "rpos (of_int (- m) * 2 powi j) = of_int (- m) * 2 powi j" using 3 mj by (intro rpos_exact) simp_all
    then have "rpos (- x) = - x" by (simp add: x_def)
    then show ?thesis using x lt' by (simp add: rnd_neg)
  qed
  then show ?thesis by (simp only: is_double_def x_def)
qed

lemma rnd_exact: "is_double x \<Longrightarrow> rnd x = Fin x"
  by (simp only: is_double_def)

lemma small_lt_overflow: "\<bar>x\<bar> \<le> 2 ^ 53 \<Longrightarrow> \<bar>x\<bar> < overflow_bound"
proof -
  assume "\<bar>x\<bar> \<le> 2 ^ 53"
  also have "(2::real) ^ 53 < 2 ^ 1024" by (rule power_strict_increasing) simp_all
  finally show ?thesis by (simp only: overflow_bound_def)
qed

lemma is_double_of_int:
  assumes "\<bar>k\<bar> < 2 ^ 53" shows "is_double (of_int k)"
proof -
  have "\<bar>real_of_int k\<bar> < 2 ^ 53" using assms by (metis int_pow_real2 of_int_abs)
  then have "\<bar>real_of_int k * 2 powi 0\<bar> < overflow_bound" by (intro small_lt_overflow) simp
  with assms have "is_double (real_of_int k * 2 powi 0)" by (intro is_double_scaled) simp_all
  then show ?thesis by simp
qed

lemma is_double_div256:
  assumes "\<bar>m\<bar> < 2 ^ 53" shows "is_double (of_int m / 256)"
proof -
  have e: "real_of_int m / 256 = of_int m * 2 powi (- 8)" by simp
  have "\<bar>real_of_int m\<bar> < 2 ^ 53" using assms by (metis int_pow_real2 of_int_abs)
  then have "\<bar>real_of_int m / 256\<bar> \<le> 2 ^ 53" by simp
  then have "\<bar>real_of_int m * 2 powi (- 8)\<bar> < overflow_bound" unfolding e[symmetric] by (rule small_lt_overflow)
  with assms have "is_double (real_of_int m * 2 powi (- 8))" by (intro is_double_scaled) simp_all
  then show ?thesis by (simp only: e)
qed

lemma rnd_of_int: "\<bar>k\<bar> < 2 ^ 53 \<Longrightarrow> rnd (of_int k) = Fin (of_int k)"
  by (rule rnd_exact) (rule is_double_of_int)

section \<open>The number of bins\<close>

lemma rnd_ge: "is_double g \<Longrightarrow> g \<le> x \<Longrightarrow> js_le (Fin g) (rnd x)"
  using rnd_mono[of g x] by (simp add: rnd_exact)

lemma rnd_le: "is_double g \<Longrightarrow> x \<le> g \<Longrightarrow> js_le (rnd x) (Fin g)"
  using rnd_mono[of x g] by (simp add: rnd_exact)

lemma half_ge:
  assumes "is_double g" "is_double (g / 2)" "g \<le> x"
  shows "js_le (Fin (g / 2)) (js_div (rnd x) (Fin 2))"
proof (cases "rnd x")
  case (Fin t)
  with rnd_ge[OF assms(1,3)] have "g \<le> t" by (simp add: js_le_def)
  then have "g / 2 \<le> t / 2" by simp
  from rnd_ge[OF assms(2) this] Fin show ?thesis by simp
qed (use rnd_ge[OF assms(1,3)] in \<open>simp_all add: js_le_def\<close>)

lemma half_le:
  assumes "is_double g" "is_double (g / 2)" "x \<le> g"
  shows "js_le (js_div (rnd x) (Fin 2)) (Fin (g / 2))"
proof (cases "rnd x")
  case (Fin t)
  with rnd_le[OF assms(1,3)] have "t \<le> g" by (simp add: js_le_def)
  then have "t / 2 \<le> g / 2" by simp
  from rnd_le[OF assms(2) this] Fin show ?thesis by simp
qed (use rnd_le[OF assms(1,3)] in \<open>simp_all add: js_le_def\<close>)

lemma sqrt_upper: 
  assumes "real n \<le> 4 * (real_of_int c)\<^sup>2" "0 \<le> c" shows "sqrt (real n) \<le> 2 * real_of_int c"
  using assms by (intro real_le_lsqrt) (simp_all add: power2_eq_square)

lemma sqrt_lower:
  assumes "4 * (real_of_int k)\<^sup>2 < real n" "0 \<le> k" "k \<le> 19"
  shows "2 * real_of_int k + 1 / 128 \<le> sqrt (real n)"
proof -
  have "real_of_int (4 * k\<^sup>2) < real_of_int (int n)" using assms(1) by simp
  then have "4 * k\<^sup>2 < int n" by (simp only: of_int_less_iff)
  then have "4 * k\<^sup>2 + 1 \<le> int n" by simp
  then have "real_of_int (4 * k\<^sup>2 + 1) \<le> real_of_int (int n)" by (simp only: of_int_le_iff)
  then have n: "4 * (real_of_int k)\<^sup>2 + 1 \<le> real n" by simp
  have k: "real_of_int k \<le> 19" "0 \<le> real_of_int k" using assms by simp_all
  have "(2 * real_of_int k + 1 / 128)\<^sup>2 = 4 * (real_of_int k)\<^sup>2 + real_of_int k / 32 + 1 / 16384"
    by (simp add: power2_eq_square algebra_simps)
  also have "\<dots> \<le> 4 * (real_of_int k)\<^sup>2 + 1" using k by simp
  also have "\<dots> \<le> real n" by (rule n)
  finally show ?thesis by (rule real_le_rsqrt)
qed


lemma q_upper:
  assumes "0 \<le> c" "c \<le> 20" "sqrt (real n) \<le> 2 * real_of_int c"
  shows "js_le (js_div (Math_sqrt (Fin (real n))) (Fin 2)) (Fin (real_of_int c))"
proof -
  have 1: "is_double (real_of_int (2 * c))" using assms(1,2) by (intro is_double_of_int) simp
  have 2: "is_double (real_of_int (2 * c) / 2)" using assms(1,2) is_double_of_int[of c] by simp
  have 3: "sqrt (real n) \<le> real_of_int (2 * c)" using assms(3) by simp
  from half_le[OF 1 2 3] show ?thesis by simp
qed

lemma q_lower:
  assumes "0 \<le> k" "k \<le> 19" "2 * real_of_int k < sqrt (real n)"
  shows "js_le (Fin (real_of_int k + 1 / 256)) (js_div (Math_sqrt (Fin (real n))) (Fin 2))"
proof -
  have "sqrt (real n) \<le> 2 * real_of_int k" if "real n \<le> 4 * (real_of_int k)\<^sup>2"
    using that assms(1) by (rule sqrt_upper)
  then have "4 * (real_of_int k)\<^sup>2 < real n" using assms(3) by fastforce
  then have s: "2 * real_of_int k + 1 / 128 \<le> sqrt (real n)" using assms(1,2) by (rule sqrt_lower)
  have 1: "is_double (real_of_int (512 * k + 2) / 256)" using assms(1,2) by (intro is_double_div256) simp
  have 2: "is_double (real_of_int (256 * k + 1) / 256)" using assms(1,2) by (intro is_double_div256) simp
  have e1: "real_of_int (512 * k + 2) / 256 = 2 * real_of_int k + 1 / 128" by simp
  have e2: "real_of_int (256 * k + 1) / 256 = real_of_int k + 1 / 256" by (simp add: field_simps)
  have e3: "(2 * real_of_int k + 1 / 128) / 2 = real_of_int k + 1 / 256" by simp
  from 1 2 have d: "is_double (2 * real_of_int k + 1 / 128)" "is_double ((2 * real_of_int k + 1 / 128) / 2)"
    by (simp_all only: e1 e2 e3)
  from half_ge[OF d s] show ?thesis by (simp add: e3)
qed

lemma numBins_low:
  assumes "js_le q (Fin 10)"
  shows "Math_min2 (Fin 20) (Math_max2 (Fin 10) (Math_ceil q)) = Fin 10"
proof (cases q)
  case (Fin r)
  with assms have "r \<le> 10" by (simp add: js_le_def)
  then have "\<lceil>r\<rceil> \<le> 10" by (simp add: ceiling_le_iff)
  then have "real_of_int \<lceil>r\<rceil> \<le> 10" by linarith
  then show ?thesis using Fin by (simp add: Math_min2_def Math_max2_def)
qed (use assms in \<open>simp_all add: js_le_def Math_min2_def Math_max2_def\<close>)

lemma numBins_high:
  assumes "js_le (Fin (19 + 1 / 256)) q"
  shows "Math_min2 (Fin 20) (Math_max2 (Fin 10) (Math_ceil q)) = Fin 20"
proof (cases q)
  case (Fin r)
  with assms have "19 < r" by (simp add: js_le_def)
  then have "19 < \<lceil>r\<rceil>" by (simp add: less_ceiling_iff)
  then have "20 \<le> real_of_int \<lceil>r\<rceil>" by linarith
  then show ?thesis using Fin by (auto simp add: Math_min2_def Math_max2_def)
qed (use assms in \<open>simp_all add: js_le_def Math_min2_def Math_max2_def\<close>)

lemma numBins_mid:
  assumes "js_le (Fin (real_of_int c - 1 + 1 / 256)) q" "js_le q (Fin (real_of_int c))" "10 \<le> c" "c \<le> 20"
  shows "Math_min2 (Fin 20) (Math_max2 (Fin 10) (Math_ceil q)) = Fin (real_of_int c)"
proof (cases q)
  case (Fin r)
  with assms have "real_of_int c - 1 < r" "r \<le> real_of_int c" by (simp_all add: js_le_def)
  then have "\<lceil>r\<rceil> = c" by (intro ceiling_unique) simp_all
  then show ?thesis using Fin assms(3,4) by (auto simp add: Math_min2_def Math_max2_def)
qed (use assms in \<open>simp_all add: js_le_def\<close>)

lemma numBins_eq: "numBins n = Fin (real_of_int (spec_numBins n))"
proof -
  define c where "c = \<lceil>sqrt (real n) / 2\<rceil>"
  let ?q = "js_div (Math_sqrt (Fin (real n))) (Fin 2)"
  have cc: "real_of_int c - 1 < sqrt (real n) / 2" "sqrt (real n) / 2 \<le> real_of_int c"
    unfolding c_def using ceiling_correct[of "sqrt (real n) / 2"] by simp_all
  have up: "sqrt (real n) \<le> 2 * real_of_int c" using cc(2) by simp
  have lo: "2 * (real_of_int c - 1) < sqrt (real n)" using cc(1) by simp
  consider "c \<le> 10" | "20 \<le> c" | "10 < c" "c < 20" by linarith
  then show ?thesis
  proof cases
    case 1
    then have "sqrt (real n) \<le> 2 * real_of_int 10" using up by simp
    then have "js_le ?q (Fin (real_of_int 10))" by (intro q_upper) simp_all
    then have "numBins n = Fin 10" unfolding numBins_def by (intro numBins_low) simp
    moreover have "spec_numBins n = 10" using 1 by (simp add: spec_numBins_def c_def)
    ultimately show ?thesis by simp
  next
    case 2
    then have "2 * real_of_int 19 < sqrt (real n)" using lo by simp
    then have "js_le (Fin (real_of_int 19 + 1 / 256)) ?q" by (intro q_lower) simp_all
    then have "numBins n = Fin 20" unfolding numBins_def by (intro numBins_high) simp
    moreover have "spec_numBins n = 20" using 2 by (simp add: spec_numBins_def c_def)
    ultimately show ?thesis by simp
  next
    case 3
    have "2 * real_of_int (c - 1) < sqrt (real n)" using lo by simp
    then have "js_le (Fin (real_of_int (c - 1) + 1 / 256)) ?q" using 3 by (intro q_lower) simp_all
    then have a: "js_le (Fin (real_of_int c - 1 + 1 / 256)) ?q" by simp
    have b: "js_le ?q (Fin (real_of_int c))" using up 3 by (intro q_upper) simp_all
    have "numBins n = Fin (real_of_int c)" unfolding numBins_def using a b 3 by (intro numBins_mid) simp_all
    moreover have "spec_numBins n = c" using 3 by (simp add: spec_numBins_def c_def)
    ultimately show ?thesis by simp
  qed
qed


lemma spec_numBins_range: "10 \<le> spec_numBins n" "spec_numBins n \<le> 20"
  by (simp_all add: spec_numBins_def)

lemma numBins_nat:
  obtains nb where "numBins n = Fin (real nb)" "10 \<le> nb" "nb \<le> 20"
    "array_length (numBins n) = Some nb" "int nb = spec_numBins n"
proof -
  define nb where "nb = nat (spec_numBins n)"
  have i: "int nb = spec_numBins n" using spec_numBins_range[of n] by (simp add: nb_def)
  then have r: "real nb = real_of_int (spec_numBins n)" by (metis of_int_of_nat_eq)
  have 1: "numBins n = Fin (real nb)" by (simp only: numBins_eq r)
  have 2: "10 \<le> nb" "nb \<le> 20" using spec_numBins_range[of n] i by linarith+
  have 3: "array_length (numBins n) = Some nb" using 2 by (simp add: 1 array_length_def)
  show ?thesis using that 1 2 3 i by blast
qed

lemma sqrt_400: "sqrt 400 = 20"
  by (rule real_sqrt_unique) simp_all

lemma numBins_le_400:
  assumes "n \<le> 400" shows "numBins n = Fin 10"
proof -
  have "sqrt (real n) \<le> sqrt 400" using assms by (intro real_sqrt_le_mono) simp
  then have "sqrt (real n) \<le> 2 * real_of_int 10" by (simp add: sqrt_400)
  then have "js_le (js_div (Math_sqrt (Fin (real n))) (Fin 2)) (Fin (real_of_int 10))"
    by (intro q_upper) simp_all
  then show ?thesis unfolding numBins_def by (intro numBins_low) simp
qed

lemma sqrt_1444: "sqrt 1444 = 38"
  by (rule real_sqrt_unique) simp_all

lemma numBins_gt_1444:
  assumes "1444 < n" shows "numBins n = Fin 20"
proof -
  have "sqrt 1444 < sqrt (real n)" using assms by (intro real_sqrt_less_mono) simp
  then have "2 * real_of_int 19 < sqrt (real n)" by (simp add: sqrt_1444)
  then have "js_le (Fin (real_of_int 19 + 1 / 256)) (js_div (Math_sqrt (Fin (real n))) (Fin 2))"
    by (intro q_lower) simp_all
  then show ?thesis unfolding numBins_def by (intro numBins_high) simp
qed

section \<open>Bin indices and counts\<close>


lemma ceil_half_sqrt:
  assumes "4 * (real_of_int c - 1)\<^sup>2 < real n" "real n \<le> 4 * (real_of_int c)\<^sup>2" "1 \<le> c"
  shows "\<lceil>sqrt (real n) / 2\<rceil> = c"
proof -
  have "(2 * (real_of_int c - 1))\<^sup>2 = 4 * (real_of_int c - 1)\<^sup>2"
    by (simp add: power2_eq_square algebra_simps)
  then have "(2 * (real_of_int c - 1))\<^sup>2 < real n" using assms(1) by (simp only:)
  then have "2 * (real_of_int c - 1) < sqrt (real n)" by (rule real_less_rsqrt)
  moreover have "sqrt (real n) \<le> 2 * real_of_int c" using assms(2,3) by (intro sqrt_upper) simp_all
  ultimately show ?thesis by (intro ceiling_unique) simp_all
qed

text \<open>The number of bins as a table on the length, for evaluation.\<close>

lemma numBins_code [code]:
  "numBins n = Fin (if n \<le> 400 then 10 else if n \<le> 484 then 11 else if n \<le> 576 then 12
     else if n \<le> 676 then 13 else if n \<le> 784 then 14 else if n \<le> 900 then 15
     else if n \<le> 1024 then 16 else if n \<le> 1156 then 17 else if n \<le> 1296 then 18
     else if n \<le> 1444 then 19 else 20)"
proof -
  have mid: "numBins n = Fin (real_of_int c)"
    if "4 * (real_of_int c - 1)\<^sup>2 < real n" "real n \<le> 4 * (real_of_int c)\<^sup>2" "10 \<le> c" "c \<le> 20" for c
  proof -
    have "\<lceil>sqrt (real n) / 2\<rceil> = c" using that by (intro ceil_half_sqrt) simp_all
    then have "spec_numBins n = c" using that(3,4) by (simp add: spec_numBins_def)
    then show ?thesis by (simp only: numBins_eq)
  qed
  consider "n \<le> 400" | "400 < n" "n \<le> 484" | "484 < n" "n \<le> 576" | "576 < n" "n \<le> 676"
    | "676 < n" "n \<le> 784" | "784 < n" "n \<le> 900" | "900 < n" "n \<le> 1024" | "1024 < n" "n \<le> 1156"
    | "1156 < n" "n \<le> 1296" | "1296 < n" "n \<le> 1444" | "1444 < n" by linarith
  then show ?thesis
  proof cases
    case 1
    then show ?thesis by (simp add: numBins_le_400)
  next
    case 2
    then show ?thesis using mid[of 11] by simp
  next
    case 3
    then show ?thesis using mid[of 12] by simp
  next
    case 4
    then show ?thesis using mid[of 13] by simp
  next
    case 5
    then show ?thesis using mid[of 14] by simp
  next
    case 6
    then show ?thesis using mid[of 15] by simp
  next
    case 7
    then show ?thesis using mid[of 16] by simp
  next
    case 8
    then show ?thesis using mid[of 17] by simp
  next
    case 9
    then show ?thesis using mid[of 18] by simp
  next
    case 10
    then show ?thesis using mid[of 19] by simp
  next
    case 11
    then show ?thesis by (simp add: numBins_gt_1444)
  qed
qed

lemma numBins_minus_1:
  assumes "1 \<le> nb" "nb \<le> 20"
  shows "js_sub (Fin (real nb)) (Fin 1) = Fin (real nb - 1)"
proof -
  have "real nb + - 1 = real_of_int (int nb - 1)" by simp
  moreover have "rnd (real_of_int (int nb - 1)) = Fin (real_of_int (int nb - 1))"
    using assms by (intro rnd_of_int) simp
  ultimately show ?thesis by (simp add: js_sub_def)
qed

lemma array_index_nat: "k < 20 \<Longrightarrow> array_index (Fin (real k)) = Some k"
  by (simp add: array_index_def)

lemma clamp_Fin:
  assumes "1 \<le> nb"
  shows "\<exists>k<nb. Math_max2 (Fin 0) (Math_min2 (Fin (real nb - 1)) (Fin (real_of_int z))) = Fin (real k)"
proof -
  define k where "k = nat (max 0 (min (int nb - 1) z))"
  have k: "int k = max 0 (min (int nb - 1) z)" by (simp add: k_def)
  have "k < nb" using assms k by linarith
  moreover have "Math_max2 (Fin 0) (Math_min2 (Fin (real nb - 1)) (Fin (real_of_int z))) = Fin (real_of_int (int k))"
    unfolding k using assms by (auto simp: Math_max2_def Math_min2_def min_def max_def)
  ultimately show ?thesis by auto
qed

lemma clamp_cases:
  assumes "1 \<le> nb"
  shows "q = NaN \<and> Math_max2 (Fin 0) (Math_min2 (Fin (real nb - 1)) (Math_floor q)) = NaN
       \<or> q \<noteq> NaN \<and> (\<exists>k<nb. Math_max2 (Fin 0) (Math_min2 (Fin (real nb - 1)) (Math_floor q)) = Fin (real k))"
proof (cases q)
  case NaN
  then show ?thesis by (simp add: Math_max2_def Math_min2_def)
next
  case NegInf
  have "Math_max2 (Fin 0) (Math_min2 (Fin (real nb - 1)) (Math_floor NegInf)) = Fin (real 0)"
    by (simp add: Math_max2_def Math_min2_def)
  then show ?thesis using NegInf assms by (intro disjI2 conjI exI[of _ 0]) simp_all
next
  case (Fin r)
  then show ?thesis using clamp_Fin[OF assms, of "\<lfloor>r\<rfloor>"] by simp
next
  case PosInf
  have "Math_max2 (Fin 0) (Math_min2 (Fin (real nb - 1)) (Math_floor PosInf)) = Fin (real (nb - 1))"
    using assms by (simp add: Math_max2_def Math_min2_def)
  then show ?thesis using PosInf assms by (intro disjI2 conjI exI[of _ "nb - 1"]) simp_all
qed

lemma binIndex_cases:
  assumes "1 \<le> nb" "nb \<le> 20"
  shows "js_div (js_sub ret mn) bw = NaN \<and> binIndex mn mx (Fin (real nb)) bw ret = NaN
       \<or> js_div (js_sub ret mn) bw \<noteq> NaN \<and> (\<exists>k<nb. binIndex mn mx (Fin (real nb)) bw ret = Fin (real k))"
proof -
  let ?q = "js_div (js_sub ret mn) bw"
  from clamp_cases[OF assms(1), of ?q] show ?thesis
  proof
    assume "?q = NaN \<and> Math_max2 (Fin 0) (Math_min2 (Fin (real nb - 1)) (Math_floor ?q)) = NaN"
    then show ?thesis
      by (simp add: binIndex_def numBins_minus_1[OF assms] Let_def Math_max2_def Math_min2_def)
  next
    assume a: "?q \<noteq> NaN \<and> (\<exists>k<nb. Math_max2 (Fin 0) (Math_min2 (Fin (real nb - 1)) (Math_floor ?q)) = Fin (real k))"
    then obtain k where k: "k < nb" "Math_max2 (Fin 0) (Math_min2 (Fin (real nb - 1)) (Math_floor ?q)) = Fin (real k)"
      by blast
    have "binIndex mn mx (Fin (real nb)) bw ret = Fin (real k) \<or> binIndex mn mx (Fin (real nb)) bw ret = Fin (real (nb - 1))"
      using assms(1) by (simp add: binIndex_def numBins_minus_1[OF assms] Let_def k(2))
    then have "\<exists>k<nb. binIndex mn mx (Fin (real nb)) bw ret = Fin (real k)"
      using k(1) assms(1) by (metis diff_less less_numeral_extra(1) order_less_le_trans)
    with a show ?thesis by blast
  qed
qed

lemma binIndex_max:
  assumes "1 \<le> nb" "nb \<le> 20" "js_div (js_sub ret mn) bw \<noteq> NaN" "js_eq ret mx"
  shows "binIndex mn mx (Fin (real nb)) bw ret = Fin (real (nb - 1))"
proof -
  let ?q = "js_div (js_sub ret mn) bw"
  from clamp_cases[OF assms(1), of ?q] assms(3)
  obtain k where k: "k < nb" "Math_max2 (Fin 0) (Math_min2 (Fin (real nb - 1)) (Math_floor ?q)) = Fin (real k)"
    by blast
  show ?thesis
  proof (cases "k = nb - 1")
    case True
    then show ?thesis using assms
      by (simp add: binIndex_def numBins_minus_1[OF assms(1,2)] Let_def k(2))
  next
    case False
    then have "real k < real nb - 1" using k(1) by (simp add: less_diff_conv)
    then show ?thesis using assms
      by (simp add: binIndex_def numBins_minus_1[OF assms(1,2)] Let_def k(2))
  qed
qed

lemma incr_bin_None: "array_index i = None \<Longrightarrow> incr_bin bs i = bs"
  by (simp add: incr_bin_def)

lemma incr_bin_in:
  assumes "k < length bs" "k < 20"
  shows "incr_bin bs (Fin (real k)) = bs[k := Suc (bs ! k)]"
  using assms by (simp add: incr_bin_def array_index_nat)

lemma sum_list_incr: "k < length bs \<Longrightarrow> sum_list (bs[k := Suc (bs ! k)]) = Suc (sum_list bs)"
  by (simp add: sum_list_update)

lemma array_index_NaN: "array_index NaN = None"
  by (simp add: array_index_def)

lemma assign_length:
  assumes "1 \<le> nb" "nb \<le> 20" "length bs = nb"
  shows "length (assign mn mx (Fin (real nb)) bw bs ret) = nb"
proof -
  have z: "incr_bin bs (Fin 0) = bs[0 := Suc (bs ! 0)]"
    using incr_bin_in[of 0 bs] assms by simp
  from binIndex_cases[OF assms(1,2), of ret mn bw mx]
  have "length (incr_bin bs (binIndex mn mx (Fin (real nb)) bw ret)) = nb"
  proof
    assume "js_div (js_sub ret mn) bw = NaN \<and> binIndex mn mx (Fin (real nb)) bw ret = NaN"
    then show ?thesis using assms(3) by (simp add: incr_bin_None array_index_NaN)
  next
    assume "js_div (js_sub ret mn) bw \<noteq> NaN \<and> (\<exists>k<nb. binIndex mn mx (Fin (real nb)) bw ret = Fin (real k))"
    then obtain k where k: "k < nb" "binIndex mn mx (Fin (real nb)) bw ret = Fin (real k)" by blast
    then show ?thesis using assms by (simp add: incr_bin_in)
  qed
  then show ?thesis using assms(3) by (simp add: assign_def z)
qed

lemma foldl_assign_length:
  assumes "1 \<le> nb" "nb \<le> 20"
  shows "length bs = nb \<Longrightarrow> length (foldl (assign mn mx (Fin (real nb)) bw) bs xs) = nb"
proof (induction xs arbitrary: bs)
  case Nil
  then show ?case by simp
next
  case (Cons x xs)
  from assign_length[OF assms Cons.prems] show ?case by (simp add: Cons.IH)
qed


lemma finite_doubleE:
  assumes "finite_double v" obtains x where "v = Fin x" "is_double x"
  using assms by (cases v) simp_all

lemma foldl_min_Fin:
  assumes "list_all finite_double xs"
  shows "\<exists>m. foldl Math_min2 (Fin a) xs = Fin m \<and> m \<le> a \<and> (\<forall>x. Fin x \<in> set xs \<longrightarrow> m \<le> x)
            \<and> (m = a \<or> Fin m \<in> set xs)"
  using assms
proof (induction xs arbitrary: a)
  case Nil
  then show ?case by simp
next
  case (Cons v xs)
  then obtain x where v: "v = Fin x" by (auto elim: finite_doubleE)
  have s: "Math_min2 (Fin a) (Fin x) = Fin (min a x)" by (auto simp: Math_min2_def)
  from Cons.IH[of "min a x"] Cons.prems
  obtain m where m: "foldl Math_min2 (Fin (min a x)) xs = Fin m" "m \<le> min a x"
    "\<forall>y. Fin y \<in> set xs \<longrightarrow> m \<le> y" "m = min a x \<or> Fin m \<in> set xs" by auto
  show ?case
    apply (rule exI[of _ m])
    using m by (auto simp: v s min_def split: if_splits)
qed

lemma foldl_max_Fin:
  assumes "list_all finite_double xs"
  shows "\<exists>m. foldl Math_max2 (Fin a) xs = Fin m \<and> a \<le> m \<and> (\<forall>x. Fin x \<in> set xs \<longrightarrow> x \<le> m)
            \<and> (m = a \<or> Fin m \<in> set xs)"
  using assms
proof (induction xs arbitrary: a)
  case Nil
  then show ?case by simp
next
  case (Cons v xs)
  then obtain x where v: "v = Fin x" by (auto elim: finite_doubleE)
  have s: "Math_max2 (Fin a) (Fin x) = Fin (max a x)" by (auto simp: Math_max2_def)
  from Cons.IH[of "max a x"] Cons.prems
  obtain m where m: "foldl Math_max2 (Fin (max a x)) xs = Fin m" "max a x \<le> m"
    "\<forall>y. Fin y \<in> set xs \<longrightarrow> y \<le> m" "m = max a x \<or> Fin m \<in> set xs" by auto
  show ?case
    apply (rule exI[of _ m])
    using m by (auto simp: v s max_def split: if_splits)
qed

lemma Math_min_finite:
  assumes "list_all finite_double xs" "xs \<noteq> []"
  obtains m where "Math_min xs = Fin m" "Fin m \<in> set xs" "\<And>x. Fin x \<in> set xs \<Longrightarrow> m \<le> x" "is_double m"
proof -
  from assms obtain v vs where xs: "xs = v # vs" by (cases xs) auto
  with assms obtain x where v: "v = Fin x" by (auto elim: finite_doubleE)
  have s: "Math_min2 PosInf (Fin x) = Fin x" by (simp add: Math_min2_def)
  from foldl_min_Fin[of vs x] assms xs
  obtain m where m: "foldl Math_min2 (Fin x) vs = Fin m" "m \<le> x"
    "\<forall>y. Fin y \<in> set vs \<longrightarrow> m \<le> y" "m = x \<or> Fin m \<in> set vs" by auto
  have 1: "Math_min xs = Fin m" by (simp add: Math_min_def xs v s m(1))
  have 2: "Fin m \<in> set xs" using m(4) by (auto simp: xs v)
  have 3: "\<And>y. Fin y \<in> set xs \<Longrightarrow> m \<le> y" using m(2,3) by (auto simp: xs v)
  have "finite_double (Fin m)" using assms(1) 2 unfolding list_all_iff by blast
  then have 4: "is_double m" by simp
  show ?thesis using that 1 2 3 4 by blast
qed

lemma Math_max_finite:
  assumes "list_all finite_double xs" "xs \<noteq> []"
  obtains m where "Math_max xs = Fin m" "Fin m \<in> set xs" "\<And>x. Fin x \<in> set xs \<Longrightarrow> x \<le> m" "is_double m"
proof -
  from assms obtain v vs where xs: "xs = v # vs" by (cases xs) auto
  with assms obtain x where v: "v = Fin x" by (auto elim: finite_doubleE)
  have s: "Math_max2 NegInf (Fin x) = Fin x" by (simp add: Math_max2_def)
  from foldl_max_Fin[of vs x] assms xs
  obtain m where m: "foldl Math_max2 (Fin x) vs = Fin m" "x \<le> m"
    "\<forall>y. Fin y \<in> set vs \<longrightarrow> y \<le> m" "m = x \<or> Fin m \<in> set vs" by auto
  have 1: "Math_max xs = Fin m" by (simp add: Math_max_def xs v s m(1))
  have 2: "Fin m \<in> set xs" using m(4) by (auto simp: xs v)
  have 3: "\<And>y. Fin y \<in> set xs \<Longrightarrow> y \<le> m" using m(2,3) by (auto simp: xs v)
  have "finite_double (Fin m)" using assms(1) 2 unfolding list_all_iff by blast
  then have 4: "is_double m" by simp
  show ?thesis using that 1 2 3 4 by blast
qed

lemma js_sub_Fin: "js_sub (Fin a) (Fin b) = rnd (a - b)"
  by (simp add: js_sub_def)

lemma quotient_not_NaN:
  assumes "w \<noteq> 0"
  shows "js_div (js_sub (Fin r) (Fin m)) (Fin w) \<noteq> NaN"
  using assms rnd_not_NaN[of "r - m"]
  by (cases "rnd (r - m)") (simp_all add: js_sub_Fin rnd_not_NaN)

text \<open>The effect of one step of the loop when the bin width is a non-zero finite number.\<close>

lemma assign_effect:
  assumes nb: "1 \<le> nb" "nb \<le> 20" "length bs = nb" and w: "w \<noteq> 0"
  shows "\<exists>k<nb. assign (Fin m) mx (Fin (real nb)) (Fin w) bs (Fin r) = bs[k := Suc (bs ! k)]
           \<and> (js_eq (Fin r) mx \<longrightarrow> k = nb - 1)"
proof -
  let ?i = "binIndex (Fin m) mx (Fin (real nb)) (Fin w) (Fin r)"
  have q: "js_div (js_sub (Fin r) (Fin m)) (Fin w) \<noteq> NaN" using w by (rule quotient_not_NaN)
  with binIndex_cases[OF nb(1,2), of "Fin r" "Fin m" "Fin w" mx]
  obtain k where k: "k < nb" "?i = Fin (real k)" by blast
  have a: "assign (Fin m) mx (Fin (real nb)) (Fin w) bs (Fin r) = bs[k := Suc (bs ! k)]"
    using w k nb by (simp add: assign_def js_eq_def incr_bin_in)
  have "k = nb - 1" if "js_eq (Fin r) mx"
  proof -
    from binIndex_max[OF nb(1,2) q that] k(2) have "real k = real (nb - 1)" by simp
    then show ?thesis by (simp only: of_nat_eq_iff)
  qed
  with a k(1) show ?thesis by blast
qed

lemma foldl_assign_sum:
  assumes nb: "1 \<le> nb" "nb \<le> 20" and w: "w \<noteq> 0"
  shows "list_all finite_double xs \<Longrightarrow> length bs = nb \<Longrightarrow>
     sum_list (foldl (assign (Fin m) mx (Fin (real nb)) (Fin w)) bs xs) = sum_list bs + length xs"
proof (induction xs arbitrary: bs)
  case Nil
  then show ?case by simp
next
  case (Cons v xs)
  then obtain r where v: "v = Fin r" by (auto elim: finite_doubleE)
  from assign_effect[OF nb Cons.prems(2) w, of m mx r]
  obtain k where k: "k < nb" "assign (Fin m) mx (Fin (real nb)) (Fin w) bs (Fin r) = bs[k := Suc (bs ! k)]"
    by blast
  have l: "length (bs[k := Suc (bs ! k)]) = nb" using Cons.prems(2) by simp
  have s: "sum_list (bs[k := Suc (bs ! k)]) = Suc (sum_list bs)"
    using k(1) Cons.prems(2) by (simp add: sum_list_incr)
  from Cons.IH[OF _ l] Cons.prems(1) show ?case by (simp add: v k(2) s)
qed

lemma foldl_assign_last:
  assumes nb: "1 \<le> nb" "nb \<le> 20" and w: "w \<noteq> 0"
  shows "list_all finite_double xs \<Longrightarrow> length bs = nb \<Longrightarrow>
     bs ! (nb - 1) + length (filter (\<lambda>r. js_eq r mx) xs)
       \<le> foldl (assign (Fin m) mx (Fin (real nb)) (Fin w)) bs xs ! (nb - 1)"
proof (induction xs arbitrary: bs)
  case Nil
  then show ?case by simp
next
  case (Cons v xs)
  then obtain r where v: "v = Fin r" by (auto elim: finite_doubleE)
  from assign_effect[OF nb Cons.prems(2) w, of m mx r]
  obtain k where k: "k < nb" "assign (Fin m) mx (Fin (real nb)) (Fin w) bs (Fin r) = bs[k := Suc (bs ! k)]"
    "js_eq (Fin r) mx \<longrightarrow> k = nb - 1"
    by blast
  let ?bs = "bs[k := Suc (bs ! k)]"
  have l: "length ?bs = nb" using Cons.prems(2) by simp
  have step: "bs ! (nb - 1) + (if js_eq (Fin r) mx then 1 else 0) \<le> ?bs ! (nb - 1)"
    using k(1,3) Cons.prems(2) nb(1) by (cases "k = nb - 1") auto
  from Cons.IH[OF _ l] Cons.prems(1)
  have "?bs ! (nb - 1) + length (filter (\<lambda>r. js_eq r mx) xs)
      \<le> foldl (assign (Fin m) mx (Fin (real nb)) (Fin w)) ?bs xs ! (nb - 1)" by simp
  with step show ?case by (auto simp add: v k(2) split: if_splits)
qed


lemma histogramBins_unfold:
  obtains nb where "10 \<le> nb" "nb \<le> 20" "numBins (length xs) = Fin (real nb)"
    "histogramBins xs = Inr \<lparr>h_numBins = Fin (real nb), h_binWidth = binWidthOf xs,
       labels = map (\<lambda>i. PercentFixed2 (edge_start
                  (binEdge (Math_min xs) (Math_max xs) (Fin (real nb)) (binWidthOf xs) i))) [0..<nb],
       bins = foldl (assign (Math_min xs) (Math_max xs) (Fin (real nb)) (binWidthOf xs)) (replicate nb 0) xs,
       binEdges = map (binEdge (Math_min xs) (Math_max xs) (Fin (real nb)) (binWidthOf xs)) [0..<nb]\<rparr>"
proof -
  obtain nb where nb: "numBins (length xs) = Fin (real nb)" "10 \<le> nb" "nb \<le> 20"
    "array_length (numBins (length xs)) = Some nb" by (rule numBins_nat)
  have "array_length (Fin (real nb)) = Some nb" using nb(1,4) by simp
  then show ?thesis using that[OF nb(2,3,1)]
    by (simp add: histogramBins_def Let_def binWidthOf_def nb(1))
qed

section \<open>Underflow and overflow\<close>


lemma MIN_VALUE_pos: "0 < MIN_VALUE"
  by (simp only: MIN_VALUE_def zero_less_power_int zero_less_numeral)

lemma MIN_VALUE_le_1: "MIN_VALUE \<le> 1"
  using power_int_increasing[of "- 1074" 0 "2::real"] by (simp only: MIN_VALUE_def) simp

lemma is_double_MIN_VALUE: "is_double MIN_VALUE"
proof -
  have "\<bar>real_of_int 1 * 2 powi (- 1074)\<bar> \<le> 2 ^ 53"
    using MIN_VALUE_pos MIN_VALUE_le_1 unfolding MIN_VALUE_def by simp
  then have "\<bar>real_of_int 1 * 2 powi (- 1074)\<bar> < overflow_bound" by (rule small_lt_overflow)
  then have "is_double (real_of_int 1 * 2 powi (- 1074))" by (intro is_double_scaled) simp_all
  then show ?thesis by (simp only: MIN_VALUE_def of_int_1 mult_1)
qed

lemma ulp_subnormal:
  assumes "0 < x" "x < 2 powi (- 1022)" shows "ulp x = MIN_VALUE"
proof -
  have "2 powi expo x < (2::real) powi (- 1022)" using expo_bounds(1)[OF assms(1)] assms(2) by linarith
  then have "expo x < - 1022" by (rule pow2_less_cancel)
  then show ?thesis by (simp add: ulp_def MIN_VALUE_def)
qed

lemma rhe_zero: "0 \<le> y \<Longrightarrow> y \<le> 1 / 2 \<Longrightarrow> rhe y = 0"
proof -
  assume y: "0 \<le> y" "y \<le> 1 / 2"
  then have "\<lfloor>y\<rfloor> = 0" by (intro floor_unique) simp_all
  then show ?thesis using y by (simp add: rhe_def)
qed

lemma overflow_bound_pos: "0 < overflow_bound"
  by (simp only: overflow_bound_def zero_less_power zero_less_numeral)

lemma MIN_VALUE_lt_normal: "MIN_VALUE < 2 powi (- 1022)"
  unfolding MIN_VALUE_def by (rule power_int_strict_increasing) simp_all

lemma rnd_underflow:
  assumes "0 \<le> x" "x \<le> MIN_VALUE / 2" shows "rnd x = Fin 0"
proof (cases "x = 0")
  case True
  then show ?thesis by (simp add: rnd_zero)
next
  case False
  then have x: "0 < x" using assms(1) by simp
  have "x < 2 powi (- 1022)" using assms(2) MIN_VALUE_lt_normal MIN_VALUE_pos by linarith
  then have u: "ulp x = MIN_VALUE" using x by (intro ulp_subnormal)
  have "x / MIN_VALUE \<le> 1 / 2" using assms(2) MIN_VALUE_pos by (simp add: field_simps)
  moreover have "0 \<le> x / MIN_VALUE" using x MIN_VALUE_pos by simp
  ultimately have "rhe (x / MIN_VALUE) = 0" by (intro rhe_zero)
  then have "rpos x = 0" by (simp add: rpos_def u)
  then show ?thesis using x overflow_bound_pos by (simp add: rnd_pos)
qed


lemma rnd_overflow:
  assumes "overflow_bound \<le> x" shows "rnd x = PosInf"
proof -
  have x: "0 < x" using assms overflow_bound_pos by linarith
  have "(2::real) powi 1024 \<le> x" using assms by (simp only: overflow_bound_def power_int_numeral)
  also have "x < 2 powi (expo x + 1)" by (rule expo_bounds(2)[OF x])
  finally have "1024 < expo x + 1" by (rule pow2_less_cancel)
  then have e: "1024 \<le> expo x" by simp
  then have "(2::real) powi 1024 \<le> 2 powi expo x" by (intro power_int_increasing) simp_all
  also have "\<dots> \<le> rpos x" using e by (intro rpos_lower[OF x]) simp
  finally have "overflow_bound \<le> rpos x" by (simp only: overflow_bound_def power_int_numeral)
  then show ?thesis using x by (simp add: rnd_pos)
qed

lemma MAX_VALUE_bounds: "0 < MAX_VALUE" "MAX_VALUE < overflow_bound" "overflow_bound \<le> 2 * MAX_VALUE"
proof -
  have p: "(2::real) ^ 1024 = 2 ^ 53 * 2 ^ 971" "(2::real) ^ 1024 = 2 * (2 ^ 52 * 2 ^ 971)"
    by (simp_all only: flip: power_add power_Suc) simp_all
  have z: "(0::real) < 2 ^ 971" by (rule zero_less_power) simp
  show "0 < MAX_VALUE" unfolding MAX_VALUE_def using z by (intro mult_pos_pos) simp_all
  have "((2::real) ^ 53 - 1) * 2 ^ 971 < 2 ^ 53 * 2 ^ 971" using z by (intro mult_strict_right_mono) simp_all
  then show "MAX_VALUE < overflow_bound" by (simp only: MAX_VALUE_def overflow_bound_def p(1))
  have "(2::real) ^ 52 * 2 ^ 971 \<le> (2 ^ 53 - 1) * 2 ^ 971" using z by (intro mult_right_mono) simp_all
  then show "overflow_bound \<le> 2 * MAX_VALUE" by (simp only: MAX_VALUE_def overflow_bound_def p(2))
qed

lemma is_double_MAX_VALUE: "is_double MAX_VALUE" "is_double (- MAX_VALUE)"
proof -
  have e: "MAX_VALUE = real_of_int (2 ^ 53 - 1) * 2 powi 971" by (simp only: MAX_VALUE_def power_int_numeral of_int_diff of_int_power of_int_numeral of_int_1)
  have a: "\<bar>MAX_VALUE\<bar> < overflow_bound" "\<bar>- MAX_VALUE\<bar> < overflow_bound"
    using MAX_VALUE_bounds(1,2) by simp_all
  from a(1) have "\<bar>real_of_int (2 ^ 53 - 1) * 2 powi 971\<bar> < overflow_bound" by (simp only: e)
  then have "is_double (real_of_int (2 ^ 53 - 1) * 2 powi 971)" by (intro is_double_scaled) simp_all
  then show "is_double MAX_VALUE" by (simp only: e)
  have e': "- MAX_VALUE = real_of_int (- (2 ^ 53 - 1)) * 2 powi 971" by (simp only: e)
  from a(2) have "\<bar>real_of_int (- (2 ^ 53 - 1)) * 2 powi 971\<bar> < overflow_bound" by (simp only: e')
  then have "is_double (real_of_int (- (2 ^ 53 - 1)) * 2 powi 971)" by (intro is_double_scaled) simp_all
  then show "is_double (- MAX_VALUE)" by (simp only: e')
qed

section \<open>Runs on concrete inputs\<close>


lemma rnd_numeral: "numeral k < (2::int) ^ 53 \<Longrightarrow> rnd (numeral k) = Fin (numeral k)"
  using rnd_of_int[of "numeral k"] by simp

lemma rnd_one: "rnd 1 = Fin 1"
  using rnd_of_int[of 1] by simp

lemma is_double_numeral: "numeral k < (2::int) ^ 53 \<Longrightarrow> is_double (numeral k)"
  using is_double_of_int[of "numeral k"] by simp

lemma is_double_zero: "is_double 0"
  by (simp add: is_double_def rnd_zero)

lemma nat_of_real_eq: "Fin (real a) = Fin (numeral k) \<Longrightarrow> a = numeral k"
  by (metis jsnum.inject of_nat_eq_iff of_nat_numeral)

lemma incr_bin_numeral:
  assumes "numeral k < length bs" "numeral k < (20::nat)"
  shows "incr_bin bs (Fin (numeral k)) = bs[numeral k := Suc (bs ! numeral k)]"
  using incr_bin_in[of "numeral k" bs] assms by simp

lemma replicate_10: "replicate 10 (0::nat) = [0, 0, 0, 0, 0, 0, 0, 0, 0, 0]"
  by (simp add: eval_nat_numeral)

lemma histogramBins_10:
  assumes "length xs \<le> 400"
  shows "histogramBins xs = Inr \<lparr>h_numBins = Fin 10, h_binWidth = binWidthOf xs,
       labels = map (\<lambda>i. PercentFixed2 (edge_start
                  (binEdge (Math_min xs) (Math_max xs) (Fin 10) (binWidthOf xs) i))) [0..<10],
       bins = foldl (assign (Math_min xs) (Math_max xs) (Fin 10) (binWidthOf xs)) (replicate 10 0) xs,
       binEdges = map (binEdge (Math_min xs) (Math_max xs) (Fin 10) (binWidthOf xs)) [0..<10]\<rparr>"
proof -
  have n: "numBins (length xs) = Fin 10" using assms by (rule numBins_le_400)
  have "array_length (Fin 10) = Some 10" by (simp add: array_length_def)
  then show ?thesis by (simp add: histogramBins_def Let_def binWidthOf_def n)
qed

text \<open>The run on \<open>[0, 5e-324]\<close>: the division \<open>range / numBins\<close> underflows to zero.\<close>

lemma width_underflow: "binWidthOf [Fin 0, Fin MIN_VALUE] = Fin 0"
proof -
  have mm: "Math_min [Fin 0, Fin MIN_VALUE] = Fin 0" "Math_max [Fin 0, Fin MIN_VALUE] = Fin MIN_VALUE"
    using MIN_VALUE_pos by (simp_all add: Math_min_def Math_max_def Math_min2_def Math_max2_def)
  have r: "js_sub (Fin MIN_VALUE) (Fin 0) = Fin MIN_VALUE"
    using rnd_exact[OF is_double_MIN_VALUE] by (simp add: js_sub_Fin)
  have "MIN_VALUE / 10 \<le> MIN_VALUE / 2" using MIN_VALUE_pos by simp
  then have d: "rnd (MIN_VALUE / 10) = Fin 0" using MIN_VALUE_pos by (intro rnd_underflow) simp_all
  have n: "numBins (length [Fin 0, Fin MIN_VALUE]) = Fin 10" by (rule numBins_le_400) simp
  show ?thesis using MIN_VALUE_pos by (simp only: binWidthOf_def mm r n binWidth_def) (simp add: d)
qed

lemma underflow_run:
  "\<exists>h. histogramBins [Fin 0, Fin MIN_VALUE] = Inr h \<and> h_binWidth h = Fin 0
     \<and> bins h = [1, 0, 0, 0, 0, 0, 0, 0, 0, 0]"
proof -
  have mm: "Math_min [Fin 0, Fin MIN_VALUE] = Fin 0" "Math_max [Fin 0, Fin MIN_VALUE] = Fin MIN_VALUE"
    using MIN_VALUE_pos by (simp_all add: Math_min_def Math_max_def Math_min2_def Math_max2_def)
  have i0: "incr_bin [0, 0, 0, 0, 0, 0, 0, 0, 0, 0] (Fin 0) = [1, 0, 0, 0, 0, 0, 0, 0, 0, 0]"
    using incr_bin_in[of 0 "[0, 0, 0, 0, 0, 0, 0, 0, 0, 0]"] by simp
  have "foldl (assign (Fin 0) (Fin MIN_VALUE) (Fin 10) (Fin 0)) (replicate 10 0) [Fin 0, Fin MIN_VALUE]
      = [1, 0, 0, 0, 0, 0, 0, 0, 0, 0]"
    using MIN_VALUE_pos by (simp add: replicate_10 assign_def js_eq_def i0)
  then show ?thesis
    by (simp add: histogramBins_10 width_underflow mm)
qed

text \<open>The run on \<open>[-MAX_VALUE, MAX_VALUE]\<close>: the subtraction \<open>max - min\<close> overflows.\<close>

lemma overflow_run:
  "\<exists>h. histogramBins [Fin (- MAX_VALUE), Fin MAX_VALUE] = Inr h \<and> h_binWidth h = PosInf
     \<and> edge_start (hd (binEdges h)) = NaN"
proof -
  let ?xs = "[Fin (- MAX_VALUE), Fin MAX_VALUE]"
  have mm: "Math_min ?xs = Fin (- MAX_VALUE)" "Math_max ?xs = Fin MAX_VALUE"
    using MAX_VALUE_bounds(1) by (simp_all add: Math_min_def Math_max_def Math_min2_def Math_max2_def)
  have "overflow_bound \<le> MAX_VALUE - - MAX_VALUE" using MAX_VALUE_bounds(3) by simp
  then have r: "js_sub (Fin MAX_VALUE) (Fin (- MAX_VALUE)) = PosInf"
    unfolding js_sub_Fin by (rule rnd_overflow)
  have n: "numBins (length ?xs) = Fin 10" by (rule numBins_le_400) simp
  have w: "binWidthOf ?xs = PosInf"
    by (simp only: binWidthOf_def mm r n binWidth_def) simp
  have e: "edge_start (binEdge (Fin (- MAX_VALUE)) (Fin MAX_VALUE) (Fin 10) PosInf 0) = NaN"
    by (simp add: binEdge_def Let_def)
  have u: "[0..<10] = 0 # [1..<10]" by (simp add: upt_conv_Cons)
  show ?thesis by (simp add: histogramBins_10 w mm u e)
qed

text \<open>The run on \<open>[2, 2, 2]\<close>, the degenerate case of the specification.\<close>

lemma degenerate_run:
  "\<exists>h. histogramBins [Fin 2, Fin 2, Fin 2] = Inr h \<and> h_binWidth h = Fin 1
     \<and> bins h = [0, 0, 0, 0, 0, 0, 0, 0, 0, 3]"
proof -
  let ?xs = "[Fin 2, Fin 2, Fin 2]"
  have mm: "Math_min ?xs = Fin 2" "Math_max ?xs = Fin 2"
    by (simp_all add: Math_min_def Math_max_def Math_min2_def Math_max2_def)
  have r: "js_sub (Fin 2) (Fin 2) = Fin 0" by (simp add: js_sub_Fin rnd_zero)
  have n: "numBins (length ?xs) = Fin 10" by (rule numBins_le_400) simp
  have w: "binWidthOf ?xs = Fin 1" by (simp only: binWidthOf_def mm r n binWidth_def) simp
  have q: "js_div (js_sub (Fin 2) (Fin 2)) (Fin 1) \<noteq> NaN" by (rule quotient_not_NaN) simp
  have "binIndex (Fin 2) (Fin 2) (Fin (real 10)) (Fin 1) (Fin 2) = Fin (real (10 - 1))"
    using q by (intro binIndex_max) (simp_all add: js_eq_def)
  then have i: "binIndex (Fin 2) (Fin 2) (Fin 10) (Fin 1) (Fin 2) = Fin (real 9)" by simp
  have a: "assign (Fin 2) (Fin 2) (Fin 10) (Fin 1) bs (Fin 2) = bs[9 := Suc (bs ! 9)]"
    if "length bs = 10" for bs
    using that by (simp add: assign_def js_eq_def i incr_bin_numeral)
  have "foldl (assign (Fin 2) (Fin 2) (Fin 10) (Fin 1)) (replicate 10 0) ?xs
      = [0, 0, 0, 0, 0, 0, 0, 0, 0, 3]"
    by (simp add: replicate_10 a eval_nat_numeral)
  then show ?thesis by (simp add: histogramBins_10 w mm)
qed

text \<open>The run on \<open>[0, 10]\<close>: ten bins of width 1.\<close>

lemma width_0_10: "binWidthOf [Fin 0, Fin 10] = Fin 1"
proof -
  have mm: "Math_min [Fin 0, Fin 10] = Fin 0" "Math_max [Fin 0, Fin 10] = Fin 10"
    by (simp_all add: Math_min_def Math_max_def Math_min2_def Math_max2_def)
  have r: "js_sub (Fin 10) (Fin 0) = Fin 10" by (simp add: js_sub_Fin rnd_numeral)
  have n: "numBins (length [Fin 0, Fin 10]) = Fin 10" by (rule numBins_le_400) simp
  show ?thesis by (simp only: binWidthOf_def mm r n binWidth_def) (simp add: rnd_one)
qed

lemma finite_0_10: "list_all finite_double [Fin 0, Fin 10]"
  by (simp add: is_double_zero is_double_numeral)

section \<open>Bin width and bin edges\<close>


lemma Math_min_ex:
  assumes "list_all finite_double xs" "xs \<noteq> []"
  shows "\<exists>m. Math_min xs = Fin m \<and> Fin m \<in> set xs \<and> (\<forall>x. Fin x \<in> set xs \<longrightarrow> m \<le> x) \<and> is_double m"
  using Math_min_finite[OF assms] by metis

lemma Math_max_ex:
  assumes "list_all finite_double xs" "xs \<noteq> []"
  shows "\<exists>m. Math_max xs = Fin m \<and> Fin m \<in> set xs \<and> (\<forall>x. Fin x \<in> set xs \<longrightarrow> x \<le> m) \<and> is_double m"
  using Math_max_finite[OF assms] by metis




lemma binEdge_first:
  assumes "is_double m"
  shows "edge_start (binEdge (Fin m) mx nB (Fin w) 0) = Fin m"
  using rnd_exact[OF assms] by (simp add: binEdge_def Let_def rnd_zero)

lemma binEdge_last:
  assumes "1 \<le> nb" "nb \<le> 20"
  shows "edge_end (binEdge mn mx (Fin (real nb)) bw (nb - 1)) = mx"
  using assms by (simp add: binEdge_def Let_def numBins_minus_1 js_eq_def)

section \<open>Rounded values and the order of the bin edges\<close>


lemma rnd_minus: "rnd (- x) = js_neg (rnd x)"
proof -
  consider "x = 0" | "0 < x" | "x < 0" by linarith
  then show ?thesis
  proof cases
    case 1
    then show ?thesis by (simp add: rnd_zero)
  next
    case 2
    then have "- x < 0" by simp
    from rnd_neg[OF this] rnd_pos[OF 2] show ?thesis by simp
  next
    case 3
    then have "0 < - x" by simp
    from rnd_pos[OF this] rnd_neg[OF 3] show ?thesis by simp
  qed
qed

lemma is_double_minus: "is_double y \<Longrightarrow> is_double (- y)"
  by (simp add: is_double_def rnd_minus)

lemma rhe_ulp_le:
  assumes "0 < a" shows "rhe (a / ulp a) \<le> 2 ^ 53"
proof -
  let ?E = "max (expo a) (- 1022)"
  have "a < 2 powi (expo a + 1)" using expo_bounds(2)[OF assms] .
  also have "\<dots> \<le> 2 powi (?E + 1)" by (intro power_int_increasing) simp_all
  also have "\<dots> = 2 * 2 powi ?E" by (simp add: power_int_add)
  also have "\<dots> = 2 ^ 53 * ulp a" using ulp_mult[of a] by simp
  finally have "a / ulp a \<le> 2 ^ 53" using ulp_pos[of a] by (simp add: field_simps)
  then have "rhe (a / ulp a) \<le> rhe (of_int (2 ^ 53))" by (intro rhe_mono) simp
  then show ?thesis by (simp only: rhe_of_int)
qed

lemma rpos_is_double:
  assumes "0 < a" "rpos a < overflow_bound" shows "is_double (rpos a)"
proof -
  define M where "M = rhe (a / ulp a)"
  define j where "j = max (expo a) (- 1022) - 52"
  have u: "ulp a = 2 powi j" by (simp only: ulp_def j_def)
  have j: "- 1074 \<le> j" by (simp add: j_def)
  have M0: "0 \<le> M" unfolding M_def using assms(1) ulp_pos[of a] by (intro rhe_nonneg) simp
  have M53: "M \<le> 2 ^ 53" unfolding M_def by (rule rhe_ulp_le[OF assms(1)])
  have r: "rpos a = of_int M * 2 powi j" by (simp only: rpos_def M_def u)
  have r0: "0 \<le> rpos a" using assms(1) by (intro rpos_nonneg) simp
  then have b: "\<bar>rpos a\<bar> < overflow_bound" using assms(2) by simp
  show ?thesis
  proof (cases "M < 2 ^ 53")
    case True
    then have "\<bar>M\<bar> < 2 ^ 53" using M0 by simp
    moreover have "\<bar>of_int M * 2 powi j\<bar> < overflow_bound" using b by (simp only: r)
    ultimately have "is_double (of_int M * 2 powi j)" using j by (intro is_double_scaled)
    then show ?thesis by (simp only: r)
  next
    case False
    then have M: "M = 2 ^ 53" using M53 by simp
    have "(2::real) powi (j + 1) = 2 powi j * 2 powi 1" by (rule pow2_add)
    then have e: "rpos a = of_int (2 ^ 52) * 2 powi (j + 1)" by (simp add: r M)
    have "\<bar>of_int (2 ^ 52) * (2::real) powi (j + 1)\<bar> < overflow_bound" using b by (simp only: e)
    then have "is_double (of_int (2 ^ 52) * 2 powi (j + 1))" using j by (intro is_double_scaled) simp_all
    then show ?thesis by (simp only: e)
  qed
qed

lemma rnd_is_double:
  assumes "rnd x = Fin r" shows "is_double r"
proof -
  consider "x = 0" | "0 < x" | "x < 0" by linarith
  then show ?thesis
  proof cases
    case 1
    with assms show ?thesis by (simp add: rnd_zero is_double_zero)
  next
    case 2
    with assms have "rpos x < overflow_bound" "r = rpos x" by (simp_all add: rnd_pos split: if_splits)
    with rpos_is_double[OF 2] show ?thesis by simp
  next
    case 3
    then have p: "0 < - x" by simp
    from 3 assms have "rpos (- x) < overflow_bound" "r = - rpos (- x)"
      by (simp_all add: rnd_neg split: if_splits)
    with is_double_minus[OF rpos_is_double[OF p]] show ?thesis by simp
  qed
qed

lemma js_add_Fin_not_NaN: "b \<noteq> NaN \<Longrightarrow> js_add (Fin m) b \<noteq> NaN"
  by (cases b) (simp_all add: rnd_not_NaN)

lemma js_add_mono_right:
  assumes "js_le a b" shows "js_le (js_add (Fin m) a) (js_add (Fin m) b)"
proof -
  from assms have ab: "a \<noteq> NaN" "b \<noteq> NaN" by (simp_all add: js_le_def)
  show ?thesis
  proof (cases a)
    case NaN
    with ab show ?thesis by simp
  next
    case NegInf
    then show ?thesis using js_add_Fin_not_NaN[OF ab(2), of m]
      by (cases "js_add (Fin m) b") (simp_all add: js_le_def)
  next
    case PosInf
    with assms have "b = PosInf" by (cases b) (simp_all add: js_le_def)
    with PosInf show ?thesis by (simp add: js_le_def)
  next
    case (Fin x)
    show ?thesis
    proof (cases b)
      case (Fin y)
      with \<open>a = Fin x\<close> assms have "x \<le> y" by (simp add: js_le_def)
      then have "m + x \<le> m + y" by simp
      from rnd_mono[OF this] show ?thesis by (simp add: \<open>a = Fin x\<close> Fin)
    next
      case PosInf
      then show ?thesis using rnd_not_NaN[of "m + x"]
        by (cases "rnd (m + x)") (simp_all add: \<open>a = Fin x\<close> js_le_def)
    qed (use assms ab \<open>a = Fin x\<close> in \<open>simp_all add: js_le_def\<close>)
  qed
qed

lemma js_add_nonneg_ge:
  assumes "s \<noteq> NaN" "s = PosInf \<or> s = NegInf \<or> (\<exists>x. s = Fin x \<and> is_double x)" "0 \<le> w"
  shows "js_le s (js_add s (Fin w))"
proof (cases s)
  case (Fin x)
  with assms(2) have d: "is_double x" by simp
  have "x \<le> x + w" using assms(3) by simp
  from rnd_ge[OF d this] show ?thesis by (simp add: Fin)
qed (use assms(1) in \<open>simp_all add: js_le_def\<close>)

lemma binStart_cases:
  assumes "0 \<le> w"
  shows "js_add (Fin m) (js_mul (Fin (real i)) (Fin w)) \<noteq> NaN"
    and "js_add (Fin m) (js_mul (Fin (real i)) (Fin w)) = PosInf
       \<or> js_add (Fin m) (js_mul (Fin (real i)) (Fin w)) = NegInf
       \<or> (\<exists>x. js_add (Fin m) (js_mul (Fin (real i)) (Fin w)) = Fin x \<and> is_double x)"
proof -
  let ?t = "js_mul (Fin (real i)) (Fin w)"
  have t: "?t \<noteq> NaN" by (simp add: rnd_not_NaN)
  show n: "js_add (Fin m) ?t \<noteq> NaN" using t by (rule js_add_Fin_not_NaN)
  show "js_add (Fin m) ?t = PosInf \<or> js_add (Fin m) ?t = NegInf
       \<or> (\<exists>x. js_add (Fin m) ?t = Fin x \<and> is_double x)"
  proof (cases "js_add (Fin m) ?t")
    case (Fin x)
    have "is_double x"
    proof (cases ?t)
      case (Fin y)
      with \<open>js_add (Fin m) ?t = Fin x\<close> have "rnd (m + y) = Fin x" by simp
      then show ?thesis by (rule rnd_is_double)
    qed (use \<open>js_add (Fin m) ?t = Fin x\<close> t in simp_all)
    with Fin show ?thesis by simp
  qed (use n in simp_all)
qed

lemma binEdge_inner:
  assumes "1 \<le> nb" "nb \<le> 20" "Suc i < nb"
  shows "edge_end (binEdge mn mx (Fin (real nb)) bw i) = js_add (edge_start (binEdge mn mx (Fin (real nb)) bw i)) bw"
  using assms by (simp add: binEdge_def Let_def numBins_minus_1 js_eq_def)

lemma binEdge_start: "edge_start (binEdge mn mx nB bw i) = js_add mn (js_mul (Fin (real i)) bw)"
  by (simp add: binEdge_def Let_def)

lemma inner_edges_ordered:
  assumes nb: "1 \<le> nb" "nb \<le> 20" "Suc i < nb" and w: "0 \<le> w"
  shows "js_le (edge_start (binEdge (Fin m) mx (Fin (real nb)) (Fin w) i))
               (edge_end (binEdge (Fin m) mx (Fin (real nb)) (Fin w) i))"
    and "js_le (edge_start (binEdge (Fin m) mx (Fin (real nb)) (Fin w) i))
               (edge_start (binEdge (Fin m) mx (Fin (real nb)) (Fin w) (Suc i)))"
proof -
  show "js_le (edge_start (binEdge (Fin m) mx (Fin (real nb)) (Fin w) i))
               (edge_end (binEdge (Fin m) mx (Fin (real nb)) (Fin w) i))"
    unfolding binEdge_inner[OF nb] binEdge_start
    using binStart_cases[OF w, of m i] w by (intro js_add_nonneg_ge)
  have "real i * w \<le> real (Suc i) * w" using w by (intro mult_right_mono) simp_all
  then have "js_le (js_mul (Fin (real i)) (Fin w)) (js_mul (Fin (real (Suc i))) (Fin w))"
    using rnd_mono by simp
  then show "js_le (edge_start (binEdge (Fin m) mx (Fin (real nb)) (Fin w) i))
               (edge_start (binEdge (Fin m) mx (Fin (real nb)) (Fin w) (Suc i)))"
    unfolding binEdge_start by (rule js_add_mono_right)
qed


lemma rnd_eval_pos:
  assumes "2 powi e \<le> x" "x < 2 powi (e + 1)" "- 1022 \<le> e" "e \<le> 52"
    and "rhe (x / 2 powi (e - 52)) = k"
  shows "rnd x = Fin (of_int k * 2 powi (e - 52))"
proof -
  have "(0::real) < 2 powi e" by simp
  then have x: "0 < x" using assms(1) by linarith
  have e: "expo x = e" using assms(1,2) by (rule expo_unique)
  have u: "ulp x = 2 powi (e - 52)" using assms(3) by (simp add: ulp_def e)
  have r: "rpos x = of_int k * 2 powi (e - 52)" by (simp add: rpos_def u assms(5))
  have "rpos x \<le> 2 powi (max (expo x) (- 1022) + 1)" by (rule rpos_upper[OF x])
  also have "\<dots> \<le> 2 powi 53" using assms(3,4) by (intro power_int_increasing) (simp_all add: e)
  finally have "\<bar>rpos x\<bar> \<le> 2 ^ 53" using rpos_nonneg[of x] x by simp
  then have "\<bar>rpos x\<bar> < overflow_bound" by (rule small_lt_overflow)
  then have "rpos x < overflow_bound" by simp
  then show ?thesis using x by (simp add: rnd_pos r)
qed

lemma is_double_frac:
  assumes "\<bar>m\<bar> < 2 ^ 53" "k \<le> 1074" shows "is_double (of_int m / 2 ^ k)"
proof -
  have e: "real_of_int m / 2 ^ k = of_int m * 2 powi (- int k)"
    by (simp add: power_int_minus field_simps)
  have "\<bar>real_of_int m\<bar> < 2 ^ 53" using assms(1) by (metis int_pow_real2 of_int_abs)
  moreover have "\<bar>real_of_int m / 2 ^ k\<bar> \<le> \<bar>real_of_int m\<bar>"
    by (simp add: divide_le_eq_1 mult_le_cancel_left1 field_simps)
  ultimately have "\<bar>real_of_int m / 2 ^ k\<bar> \<le> 2 ^ 53" by linarith
  then have "\<bar>real_of_int m * 2 powi (- int k)\<bar> < overflow_bound"
    unfolding e[symmetric] by (rule small_lt_overflow)
  with assms have "is_double (real_of_int m * 2 powi (- int k))" by (intro is_double_scaled) simp_all
  then show ?thesis by (simp only: e)
qed

text \<open>
  The run on \<open>[-1, 0, 1, 2, 3]\<close>: the bin width is the binary64 value nearest to 0.4; the end
  of bin 3 and the start of bin 4 are rounded separately and differ in the last place.
\<close>

lemma spec_example_edges:
  "edge_end (binEdges (projr (histogramBins [Fin (- 1), Fin 0, Fin 1, Fin 2, Fin 3])) ! 3)
     = Fin (5404319552844597 / 9007199254740992)
   \<and> edge_start (binEdges (projr (histogramBins [Fin (- 1), Fin 0, Fin 1, Fin 2, Fin 3])) ! 4)
     = Fin (1351079888211149 / 2251799813685248)"
proof -
  let ?xs = "[Fin (- 1), Fin 0, Fin 1, Fin 2, Fin 3]"
  define w :: real where "w = 3602879701896397 / 9007199254740992"
  define t3 :: real where "t3 = 1351079888211149 / 1125899906842624"
  define s3 :: real where "s3 = 225179981368525 / 1125899906842624"
  define e3 :: real where "e3 = 5404319552844597 / 9007199254740992"
  define t4 :: real where "t4 = 3602879701896397 / 2251799813685248"
  define s4 :: real where "s4 = 1351079888211149 / 2251799813685248"
  have rw: "rnd (4 / 10) = Fin w"
  proof -
    have "rnd (4 / 10) = Fin (of_int 7205759403792794 * 2 powi (- 2 - 52))"
      by (rule rnd_eval_pos) (simp_all add: rhe_def)
    then show ?thesis by (simp add: w_def)
  qed
  have "(2::real) / 5 = 4 / 10" by simp
  then have rw': "rnd (2 / 5) = Fin w" by (simp only: rw)
  have r3: "rnd (3 * w) = Fin t3"
  proof -
    have "rnd (3 * w) = Fin (of_int 5404319552844596 * 2 powi (0 - 52))"
      by (rule rnd_eval_pos) (simp_all add: rhe_def w_def)
    then show ?thesis by (simp add: t3_def)
  qed
  have d: "is_double s3" "is_double e3" "is_double t4" "is_double s4"
    using is_double_frac[of 225179981368525 50] is_double_frac[of 5404319552844597 53]
      is_double_frac[of 3602879701896397 51] is_double_frac[of 1351079888211149 51]
    by (simp_all add: s3_def e3_def t4_def s4_def)
  have x: "t3 - 1 = s3" "s3 + w = e3" "4 * w = t4" "t4 - 1 = s4"
    by (simp_all add: w_def t3_def s3_def e3_def t4_def s4_def)
  have r: "rnd (t3 - 1) = Fin s3" "rnd (s3 + w) = Fin e3" "rnd (4 * w) = Fin t4" "rnd (t4 - 1) = Fin s4"
    using d by (simp_all only: x rnd_exact)
  have mm: "Math_min ?xs = Fin (- 1)" "Math_max ?xs = Fin 3"
    by (simp_all add: Math_min_def Math_max_def Math_min2_def Math_max2_def)
  have n: "numBins (length ?xs) = Fin 10" by (rule numBins_le_400) simp
  have "js_sub (Fin 3) (Fin (- 1)) = rnd 4" by (simp add: js_sub_Fin)
  then have rg: "js_sub (Fin 3) (Fin (- 1)) = Fin 4" by (simp add: rnd_numeral)
  have bw: "binWidthOf ?xs = Fin w"
    by (simp only: binWidthOf_def mm rg n binWidth_def) (simp add: rw')
  have n9: "js_sub (Fin 10) (Fin 1) = Fin 9" using numBins_minus_1[of 10] by simp
  have b3: "binEdge (Fin (- 1)) (Fin 3) (Fin 10) (Fin w) 3 = \<lparr>edge_start = Fin s3, edge_end = Fin e3\<rparr>"
    by (simp add: binEdge_def Let_def n9 js_eq_def r3 r)
  have b4: "edge_start (binEdge (Fin (- 1)) (Fin 3) (Fin 10) (Fin w) 4) = Fin s4"
    by (simp add: binEdge_def Let_def r)
  have "binEdges (projr (histogramBins ?xs)) = map (binEdge (Fin (- 1)) (Fin 3) (Fin 10) (Fin w)) [0..<10]"
    by (simp add: histogramBins_10 bw mm)
  then have "edge_end (binEdges (projr (histogramBins ?xs)) ! 3) = Fin e3"
    "edge_start (binEdges (projr (histogramBins ?xs)) ! 4) = Fin s4"
    by (simp_all add: b3 b4)
  then show ?thesis by (simp only: e3_def s4_def)
qed

section \<open>Rounding errors and the finiteness of the bin edges\<close>

text \<open>
  A finite result of \<open>rnd\<close> differs from the exact value by at most \<open>2\<^sup>-\<^sup>5\<^sup>3\<close> of its
  magnitude plus half the subnormal spacing.
\<close>

lemma rpos_err:
  assumes "0 < a" shows "\<bar>rpos a - a\<bar> \<le> ulp a / 2"
proof -
  have u: "0 < ulp a" by (rule ulp_pos)
  have "\<bar>real_of_int (rhe (a / ulp a)) - a / ulp a\<bar> \<le> 1 / 2"
    using rhe_bounds[of "a / ulp a"] by linarith
  then have "\<bar>real_of_int (rhe (a / ulp a)) - a / ulp a\<bar> * ulp a \<le> 1 / 2 * ulp a"
    using u by (intro mult_right_mono) simp_all
  moreover have "\<bar>real_of_int (rhe (a / ulp a)) - a / ulp a\<bar> * ulp a
      = \<bar>(real_of_int (rhe (a / ulp a)) - a / ulp a) * ulp a\<bar>"
    using u by (simp add: abs_mult)
  moreover have "(real_of_int (rhe (a / ulp a)) - a / ulp a) * ulp a = rpos a - a"
    using u by (simp add: rpos_def left_diff_distrib)
  ultimately show ?thesis by simp
qed

lemma ulp_le:
  assumes "0 < a" shows "ulp a \<le> a / 2 ^ 52 + MIN_VALUE"
proof (cases "- 1022 \<le> expo a")
  case True
  then have "2 ^ 52 * ulp a = 2 powi expo a" using ulp_mult[of a] by simp
  also have "\<dots> \<le> a" by (rule expo_bounds(1)[OF assms])
  finally have "ulp a \<le> a / 2 ^ 52" by (simp add: field_simps)
  then show ?thesis using MIN_VALUE_pos by linarith
next
  case False
  then have "ulp a = MIN_VALUE" by (simp add: ulp_def MIN_VALUE_def)
  then show ?thesis using assms by simp
qed

lemma rnd_err:
  assumes "rnd x = Fin r" shows "\<bar>r - x\<bar> \<le> \<bar>x\<bar> / 2 ^ 53 + MIN_VALUE / 2"
proof -
  consider "x = 0" | "0 < x" | "x < 0" by linarith
  then show ?thesis
  proof cases
    case 1
    with assms MIN_VALUE_pos show ?thesis by (simp add: rnd_zero)
  next
    case 2
    with assms have r: "r = rpos x" by (simp add: rnd_pos split: if_splits)
    from rpos_err[OF 2] ulp_le[OF 2] 2 show ?thesis by (simp add: r)
  next
    case 3
    then have p: "0 < - x" by simp
    from 3 assms have r: "r = - rpos (- x)" by (simp add: rnd_neg split: if_splits)
    have "\<bar>- rpos (- x) - x\<bar> = \<bar>rpos (- x) - (- x)\<bar>" by linarith
    with rpos_err[OF p] ulp_le[OF p] 3 show ?thesis by (simp add: r)
  qed
qed

text \<open>
  The end of a bin and the start of the next one are two roundings of the same real number
  \<open>min + (i + 1) * binWidth\<close>; five rounding errors separate them.
\<close>

lemma end_next_start_close:
  assumes w: "0 \<le> w" and i: "Suc i \<le> 19"
    and t: "rnd (real i * w) = Fin t" and s: "rnd (m + t) = Fin s" and e: "rnd (s + w) = Fin e"
    and t': "rnd (real (Suc i) * w) = Fin t'" and s': "rnd (m + t') = Fin s'"
  shows "\<bar>e - s'\<bar> \<le> (\<bar>m\<bar> + 20 * w) / 2 ^ 50 + 3 * MIN_VALUE"
proof -
  define u :: real where "u = 1 / 2 ^ 53"
  define n :: real where "n = MIN_VALUE / 2"
  define A where "A = \<bar>m\<bar> + 20 * w"
  have u0: "0 \<le> u" "u \<le> 1 / 20" by (simp_all add: u_def)
  have n0: "0 \<le> n" using MIN_VALUE_pos by (simp add: n_def)
  have A0: "0 \<le> A" "w \<le> A" "19 * w \<le> A" using w by (simp_all add: A_def)
  have un: "u * n \<le> n / 20" using u0 n0 mult_right_mono[of u "1 / 20" n] by simp
  have iw: "0 \<le> real i * w" "real i * w \<le> 18 * w" "real (Suc i) * w \<le> 19 * w" "0 \<le> real (Suc i) * w"
    using w i by (simp_all add: mult_right_mono)
  have uw: "u * (19 * w) \<le> u * A" using A0(3) u0(1) by (rule mult_left_mono)
  have uw0: "0 \<le> u * w" using u0 w by simp
  have uA0: "0 \<le> u * A" using u0 A0 by simp
  have uAle: "u * A \<le> A / 20" using u0 A0(1) mult_right_mono[of u "1 / 20" A] by simp
  have uw19: "u * (19 * w) \<le> w" using mult_right_mono[of u "1 / 20" "19 * w"] u0 w by simp
  have et: "\<bar>t - real i * w\<bar> \<le> u * (real i * w) + n"
    using rnd_err[OF t] iw(1) by (simp add: u_def n_def)
  have ew: "u * (real i * w) \<le> u * (19 * w)" using u0(1) iw(2) w by (intro mult_left_mono) simp_all
  with et uw have et2: "\<bar>t - real i * w\<bar> \<le> u * A + n" by linarith
  have et': "\<bar>t' - real (Suc i) * w\<bar> \<le> u * (real (Suc i) * w) + n"
    using rnd_err[OF t'] iw(4) by (simp add: u_def n_def)
  have ew': "u * (real (Suc i) * w) \<le> u * (19 * w)" using u0(1) iw(3) by (intro mult_left_mono) simp_all
  with et' uw have et'2: "\<bar>t' - real (Suc i) * w\<bar> \<le> u * A + n" by linarith
  have mt: "\<bar>m + t\<bar> \<le> A + n" using et ew uw19 iw(1,2) w unfolding A_def by linarith
  have mt': "\<bar>m + t'\<bar> \<le> A + n" using et' ew' uw19 iw(3,4) w unfolding A_def by linarith
  have es: "\<bar>s - (m + t)\<bar> \<le> u * \<bar>m + t\<bar> + n" using rnd_err[OF s] by (simp add: u_def n_def)
  have "u * \<bar>m + t\<bar> \<le> u * (A + n)" using mt u0(1) by (rule mult_left_mono)
  with es have es2: "\<bar>s - (m + t)\<bar> \<le> u * A + u * n + n" by (simp add: distrib_left)
  have es': "\<bar>s' - (m + t')\<bar> \<le> u * \<bar>m + t'\<bar> + n" using rnd_err[OF s'] by (simp add: u_def n_def)
  have "u * \<bar>m + t'\<bar> \<le> u * (A + n)" using mt' u0(1) by (rule mult_left_mono)
  with es' have es'2: "\<bar>s' - (m + t')\<bar> \<le> u * A + u * n + n" by (simp add: distrib_left)
  have sw: "\<bar>s + w\<bar> \<le> 3 * A + 3 * n" using es2 mt A0 uAle un n0 w by linarith
  have ee: "\<bar>e - (s + w)\<bar> \<le> u * \<bar>s + w\<bar> + n" using rnd_err[OF e] by (simp add: u_def n_def)
  have "u * \<bar>s + w\<bar> \<le> u * (3 * A + 3 * n)" using sw u0(1) by (rule mult_left_mono)
  with ee have ee2: "\<bar>e - (s + w)\<bar> \<le> 3 * (u * A) + 3 * (u * n) + n" by (simp add: distrib_left)
  have split: "e - s' = (e - (s + w)) + (s - (m + t)) + (t - real i * w)
      - (t' - real (Suc i) * w) - (s' - (m + t'))"
    by (simp add: algebra_simps)
  have "\<bar>e - s'\<bar> \<le> 7 * (u * A) + 6 * n"
    using ee2 es2 et2 et'2 es'2 un n0 unfolding split by linarith
  also have "7 * (u * A) \<le> A / 2 ^ 50" using A0(1) by (simp add: u_def)
  finally show ?thesis by (simp add: A_def n_def)
qed

lemma overflow_bound_split: "overflow_bound = 2 ^ 53 * 2 powi 971" "overflow_bound = 2 powi 1024"
  "overflow_bound = 2 * 2 powi 1023"
proof -
  have "(2::real) ^ 1024 = 2 ^ 53 * 2 ^ 971" by (simp only: flip: power_add) simp
  then show "overflow_bound = 2 ^ 53 * 2 powi 971" by (simp only: overflow_bound_def power_int_numeral)
  show "overflow_bound = 2 powi 1024" by (simp only: overflow_bound_def power_int_numeral)
  have "(2::real) ^ 1024 = 2 * 2 ^ 1023" by (simp only: flip: power_Suc) simp
  then show "overflow_bound = 2 * 2 powi 1023" by (simp only: overflow_bound_def power_int_numeral)
qed

lemma eq_divide_helper: "a = c * b \<Longrightarrow> c \<noteq> 0 \<Longrightarrow> b = a / (c::real)"
  by (simp add: field_simps)

lemma pow_top: "(2::real) powi 971 = overflow_bound / 2 ^ 53" "(2::real) powi 1023 = overflow_bound / 2"
proof -
  show "(2::real) powi 971 = overflow_bound / 2 ^ 53"
    using overflow_bound_split(1) by (rule eq_divide_helper) simp
  show "(2::real) powi 1023 = overflow_bound / 2"
    using overflow_bound_split(3) by (rule eq_divide_helper) simp
qed

lemma MAX_VALUE_eq: "MAX_VALUE = overflow_bound - overflow_bound / 2 ^ 53"
proof -
  have "MAX_VALUE = (2 ^ 53 - 1) * 2 powi 971" by (simp only: MAX_VALUE_def power_int_numeral)
  then have "MAX_VALUE = (2 ^ 53 - 1) * (overflow_bound / 2 ^ 53)" by (simp only: pow_top(1))
  then show ?thesis by (simp add: left_diff_distrib)
qed

lemma overflow_bound_large: "2 ^ 64 \<le> overflow_bound"
  unfolding overflow_bound_def by (rule power_increasing) simp_all

lemma expo_le_1023:
  assumes "0 < x" "x < overflow_bound" shows "expo x \<le> 1023"
proof -
  have "2 powi expo x \<le> x" by (rule expo_bounds(1)[OF assms(1)])
  also have "x < 2 powi 1024" using assms(2) by (simp only: overflow_bound_split(2))
  finally have "expo x < 1024" by (rule pow2_less_cancel)
  then show ?thesis by simp
qed

lemma ulp_le_top:
  assumes "0 < x" "x < overflow_bound" shows "ulp x \<le> overflow_bound / 2 ^ 53"
proof -
  have "max (expo x) (- 1022) - 52 \<le> 971" using expo_le_1023[OF assms] by simp
  then have "ulp x \<le> 2 powi 971" unfolding ulp_def by (intro power_int_increasing) simp_all
  then show ?thesis by (simp only: pow_top(1))
qed

lemma rhe_below_half:
  assumes "of_int k \<le> y" "y < of_int k + 1 / 2" shows "rhe y = k"
proof -
  have f: "\<lfloor>y\<rfloor> = k" using assms by (intro floor_unique) simp_all
  show ?thesis using assms(2) by (simp add: rhe_def f Let_def)
qed

text \<open>Above \<open>MAX_VALUE\<close> and below the midpoint to \<open>2^1024\<close> a value rounds to \<open>MAX_VALUE\<close>.\<close>

lemma rnd_top:
  assumes "MAX_VALUE \<le> x" "x < overflow_bound - overflow_bound / 2 ^ 54"
  shows "rnd x = Fin MAX_VALUE"
proof -
  define P :: real where "P = overflow_bound / 2 ^ 53"
  have p: "0 < P" using overflow_bound_pos by (simp add: P_def)
  have ob: "overflow_bound = 2 ^ 53 * P" by (simp add: P_def)
  have mv: "MAX_VALUE = (2 ^ 53 - 1) * P" by (simp add: P_def MAX_VALUE_eq left_diff_distrib)
  have x: "0 < x" using assms(1) MAX_VALUE_bounds(1) by linarith
  have "overflow_bound / 2 \<le> MAX_VALUE" using p by (simp add: ob mv)
  then have lo: "2 powi 1023 \<le> x" using assms(1) unfolding pow_top(2) by linarith
  have "x < overflow_bound" using assms(2) overflow_bound_pos by simp
  then have "x < 2 powi 1024" by (simp only: overflow_bound_split(2))
  moreover have "(1024::int) = 1023 + 1" by simp
  ultimately have hi: "x < 2 powi (1023 + 1)" by (simp only:)
  have e: "expo x = 1023" using lo hi by (rule expo_unique)
  have "max (1023::int) (- 1022) - 52 = 971" by simp
  then have "ulp x = 2 powi 971" by (simp only: ulp_def e)
  then have u: "ulp x = P" by (simp only: P_def pow_top(1))
  have y1: "2 ^ 53 - 1 \<le> x / P" using assms(1) p by (simp add: mv field_simps)
  have "x < (2 ^ 53 - 1 / 2) * P" using assms(2) by (simp add: ob left_diff_distrib)
  then have y2: "x / P < 2 ^ 53 - 1 / 2" using p by (simp add: field_simps)
  have "rhe (x / P) = 2 ^ 53 - 1" using y1 y2 by (intro rhe_below_half) simp_all
  then have r: "rpos x = MAX_VALUE" by (simp add: rpos_def u mv)
  show ?thesis using x MAX_VALUE_bounds(2) by (simp add: rnd_pos r)
qed

lemma rnd_finite_pos:
  assumes "0 \<le> x" "x < overflow_bound - overflow_bound / 2 ^ 54"
  shows "\<exists>r. rnd x = Fin r \<and> 0 \<le> r \<and> r \<le> MAX_VALUE"
proof -
  have b: "MAX_VALUE < overflow_bound - overflow_bound / 2 ^ 54"
    using overflow_bound_pos by (simp add: MAX_VALUE_eq)
  have "rnd (max x MAX_VALUE) = Fin MAX_VALUE" using assms(2) b by (intro rnd_top) simp_all
  moreover have "js_le (rnd x) (rnd (max x MAX_VALUE))" by (rule rnd_mono) simp
  ultimately have "js_le (rnd x) (Fin MAX_VALUE)" by simp
  with rnd_nonneg[OF assms(1)] show ?thesis by (auto simp: js_le_def)
qed

lemma rnd_finite:
  assumes "\<bar>x\<bar> < overflow_bound - overflow_bound / 2 ^ 54"
  shows "\<exists>r. rnd x = Fin r \<and> \<bar>r\<bar> \<le> MAX_VALUE"
proof (cases "0 \<le> x")
  case True
  with assms rnd_finite_pos[of x] show ?thesis by auto
next
  case False
  then have "0 \<le> - x" "- x < overflow_bound - overflow_bound / 2 ^ 54" using assms by simp_all
  from rnd_finite_pos[OF this] obtain r where r: "rnd (- x) = Fin r" "0 \<le> r" "r \<le> MAX_VALUE" by blast
  have "rnd x = js_neg (rnd (- x))" using rnd_minus[of "- x"] by simp
  then have "rnd x = Fin (- r)" by (simp add: r(1))
  then show ?thesis using r(2,3) by simp
qed

lemma is_double_bound_pos:
  assumes "is_double x" "0 < x" shows "x \<le> MAX_VALUE"
proof -
  from assms have r: "rpos x < overflow_bound" "rpos x = x"
    by (simp_all add: is_double_def rnd_pos split: if_splits)
  define k where "k = rhe (x / ulp x)"
  have u: "0 < ulp x" by (rule ulp_pos)
  have xk: "x = of_int k * ulp x" using r(2) by (simp add: rpos_def k_def)
  have b: "x < overflow_bound" using r by simp
  let ?E = "max (expo x) (- 1022)"
  have "x < 2 powi (expo x + 1)" by (rule expo_bounds(2)[OF assms(2)])
  also have "\<dots> \<le> 2 powi (?E + 1)" by (intro power_int_increasing) simp_all
  also have "\<dots> = 2 * 2 powi ?E" by (simp add: power_int_add)
  also have "\<dots> = 2 ^ 53 * ulp x" using ulp_mult[of x] by simp
  finally have "of_int k * ulp x < 2 ^ 53 * ulp x" using xk by simp
  then have "real_of_int k < 2 ^ 53" using u by simp
  then have "k < 2 ^ 53" by simp
  then have "k \<le> 2 ^ 53 - 1" by simp
  then have "real_of_int k \<le> 2 ^ 53 - 1" by simp
  then have "of_int k * ulp x \<le> (2 ^ 53 - 1) * ulp x" using u by (intro mult_right_mono) simp_all
  also have "\<dots> \<le> (2 ^ 53 - 1) * (overflow_bound / 2 ^ 53)"
    using ulp_le_top[OF assms(2) b] by (intro mult_left_mono) simp_all
  also have "\<dots> = MAX_VALUE" by (simp add: MAX_VALUE_eq field_simps)
  finally show ?thesis using xk by simp
qed

lemma is_double_bound:
  assumes "is_double x" shows "\<bar>x\<bar> \<le> MAX_VALUE"
proof -
  consider "x = 0" | "0 < x" | "x < 0" by linarith
  then show ?thesis
  proof cases
    case 1
    then show ?thesis using MAX_VALUE_bounds(1) by simp
  next
    case 2
    with is_double_bound_pos[OF assms] show ?thesis by simp
  next
    case 3
    then have "0 < - x" by simp
    with is_double_bound_pos[OF is_double_minus[OF assms]] 3 show ?thesis by simp
  qed
qed

text \<open>A finite result is within half the largest spacing of the exact value.\<close>

lemma rnd_sharp:
  assumes "rnd x = Fin r" shows "\<bar>r - x\<bar> \<le> overflow_bound / 2 ^ 54"
proof -
  have pos: "\<bar>rpos a - a\<bar> \<le> overflow_bound / 2 ^ 54" if a: "0 < a" "rnd a = Fin q" for a q
  proof -
    have "a < overflow_bound"
    proof (rule ccontr)
      assume "\<not> a < overflow_bound"
      then have "rnd a = PosInf" by (intro rnd_overflow) simp
      with a(2) show False by simp
    qed
    from ulp_le_top[OF a(1) this] rpos_err[OF a(1)] show ?thesis by simp
  qed
  consider "x = 0" | "0 < x" | "x < 0" by linarith
  then show ?thesis
  proof cases
    case 1
    with assms overflow_bound_pos show ?thesis by (simp add: rnd_zero)
  next
    case 2
    with assms have r: "r = rpos x" by (simp add: rnd_pos split: if_splits)
    from pos[OF 2 assms] show ?thesis by (simp add: r)
  next
    case 3
    then have p: "0 < - x" by simp
    from 3 assms have r: "r = - rpos (- x)" by (simp add: rnd_neg split: if_splits)
    have "rnd (- x) = Fin (- r)" using assms by (simp add: rnd_minus)
    from pos[OF p this] have "\<bar>rpos (- x) - (- x)\<bar> \<le> overflow_bound / 2 ^ 54" .
    moreover have "\<bar>- rpos (- x) - x\<bar> = \<bar>rpos (- x) - (- x)\<bar>" by linarith
    ultimately show ?thesis by (simp add: r)
  qed
qed

lemma MIN_VALUE_small: "MIN_VALUE \<le> 1 / 1024"
proof -
  have "(2::real) powi (- 1074) \<le> 2 powi (- 10)" by (intro power_int_increasing) simp_all
  then show ?thesis by (simp add: MIN_VALUE_def power_int_minus)
qed

lemma rnd_between:
  assumes "is_double a" "is_double b" "a \<le> x" "x \<le> b"
  shows "\<exists>r. rnd x = Fin r \<and> a \<le> r \<and> r \<le> b"
  using rnd_ge[OF assms(1,3)] rnd_le[OF assms(2,4)]
  by (cases "rnd x") (simp_all add: js_le_def)

text \<open>
  The bin width of finite returns, when it is finite: either the range is at most 1 and so is
  the bin width, or the range is above 1 and the bin width is the rounded quotient of the
  rounded range.
\<close>

lemma width_regimes:
  assumes mM: "m \<le> M" and nb: "10 \<le> nb" "nb \<le> 20"
    and bw: "binWidth (rnd (M - m)) (Fin (real nb)) = Fin w"
  shows "0 \<le> w"
    and "M - m \<le> 1 \<and> w \<le> 1
       \<or> 1 < M - m \<and> (\<exists>d. rnd (M - m) = Fin d \<and> rnd (d / real nb) = Fin w)"
proof -
  have nz: "real nb \<noteq> 0" "0 < real nb" using nb(1) by simp_all
  have one: "is_double 1" using is_double_of_int[of 1] by simp
  have D0: "0 \<le> M - m" using mM by simp
  have "0 \<le> w \<and> (M - m \<le> 1 \<and> w \<le> 1
       \<or> 1 < M - m \<and> (\<exists>d. rnd (M - m) = Fin d \<and> rnd (d / real nb) = Fin w))"
  proof (cases "M - m \<le> 1")
    case True
    from rnd_between[OF is_double_zero one D0 True]
    obtain d where d: "rnd (M - m) = Fin d" "0 \<le> d" "d \<le> 1" by blast
    show ?thesis
    proof (cases "0 < d")
      case False
      then have "w = 1" using bw by (simp add: binWidth_def d(1))
      with True show ?thesis by simp
    next
      case pos: True
      then have w: "rnd (d / real nb) = Fin w" using bw nz by (simp add: binWidth_def d(1))
      have "0 \<le> d / real nb" "d / real nb \<le> 1" using d(2,3) nb(1) by (simp_all add: field_simps)
      from rnd_between[OF is_double_zero one this] w True show ?thesis by simp
    qed
  next
    case False
    then have D1: "1 \<le> M - m" by simp
    have w: "\<exists>d. 1 \<le> d \<and> rnd (M - m) = Fin d \<and> rnd (d / real nb) = Fin w"
    proof (cases "rnd (M - m)")
      case (Fin d)
      with rnd_ge[OF one D1] have "1 \<le> d" by (simp add: js_le_def)
      then show ?thesis using bw nz by (simp add: binWidth_def Fin)
    next
      case PosInf
      then show ?thesis using bw by (simp add: binWidth_def)
    next
      case NegInf
      with rnd_ge[OF one D1] show ?thesis by (simp add: js_le_def)
    next
      case NaN
      then show ?thesis using rnd_not_NaN[of "M - m"] by simp
    qed
    then obtain d where d: "1 \<le> d" "rnd (M - m) = Fin d" "rnd (d / real nb) = Fin w" by blast
    have "0 \<le> d / real nb" using d(1) by simp
    from rnd_nonneg[OF this] d(3) have "0 \<le> w" by simp
    with False d show ?thesis by auto
  qed
  then show "0 \<le> w"
    and "M - m \<le> 1 \<and> w \<le> 1
       \<or> 1 < M - m \<and> (\<exists>d. rnd (M - m) = Fin d \<and> rnd (d / real nb) = Fin w)"
    by simp_all
qed

lemma pow2_numerals: "(2::real) ^ 53 = 9007199254740992" "(2::real) ^ 54 = 18014398509481984"
  "(2::real) ^ 64 = 18446744073709551616" "(2::real) ^ 50 = 1125899906842624"
  by simp_all

text \<open>No bin edge before the end of the last bin overflows: a small range.\<close>

lemma edges_finite_small:
  assumes m: "is_double m" and w: "0 \<le> w" "w \<le> 1" and i: "i \<le> 19"
  shows "\<exists>t s e. rnd (real i * w) = Fin t \<and> rnd (m + t) = Fin s \<and> rnd (s + w) = Fin e"
proof -
  have Q: "2 ^ 64 \<le> overflow_bound" by (rule overflow_bound_large)
  have mb: "\<bar>m\<bar> \<le> overflow_bound - overflow_bound / 2 ^ 53"
    using is_double_bound[OF m] by (simp only: MAX_VALUE_eq)
  have iw: "0 \<le> real i * w" "real i * w \<le> 19"
    using w i mult_mono[of "real i" 19 w 1] by simp_all
  have "is_double 19" by (rule is_double_numeral) simp
  from rnd_between[OF is_double_zero this iw]
  obtain t where t: "rnd (real i * w) = Fin t" "0 \<le> t" "t \<le> 19" by blast
  have "\<bar>m + t\<bar> < overflow_bound - overflow_bound / 2 ^ 54" using mb t(2,3) Q unfolding pow2_numerals by linarith
  from rnd_finite[OF this] obtain s where s: "rnd (m + t) = Fin s" "\<bar>s\<bar> \<le> MAX_VALUE" by blast
  from s(2) have "\<bar>s\<bar> \<le> overflow_bound - overflow_bound / 2 ^ 53" by (simp only: MAX_VALUE_eq)
  then have "\<bar>s + w\<bar> < overflow_bound - overflow_bound / 2 ^ 54" using w Q unfolding pow2_numerals by linarith
  from rnd_finite[OF this] obtain e where "rnd (s + w) = Fin e" by blast
  with t(1) s(1) show ?thesis by blast
qed

text \<open>
  A range above 1. With \<open>d\<close> the rounded range and \<open>w\<close> the rounded \<open>d / nb\<close>, the offset
  \<open>i * w\<close> of a bin stays below the range, so a start lies between the minimum and the
  maximum, and an end that is computed stays below the maximum plus half a spacing.
\<close>

lemma edges_finite_large:
  assumes m: "is_double m" and M: "is_double M" and D: "1 < M - m"
    and nb: "10 \<le> nb" "nb \<le> 20" and i: "i < nb"
    and d: "rnd (M - m) = Fin d" and w: "rnd (d / real nb) = Fin w"
  shows "\<exists>t s. rnd (real i * w) = Fin t \<and> rnd (m + t) = Fin s
           \<and> (Suc i < nb \<longrightarrow> (\<exists>e. rnd (s + w) = Fin e))"
proof -
  define R where "R = M - m"
  define n where "n = real nb"
  define q where "q = d / n"
  define h where "h = MIN_VALUE / 2"
  define NW where "NW = n * w"
  define IW where "IW = real i * w"
  have n: "10 \<le> n" "n \<le> 20" "0 < n" using nb by (simp_all add: n_def)
  have h: "0 < h" "h \<le> 1 / 2048" using MIN_VALUE_pos MIN_VALUE_small by (simp_all add: h_def)
  have one: "is_double 1" using is_double_of_int[of 1] by simp
  have dd: "is_double d" using d by (rule rnd_is_double)
  have "1 \<le> M - m" using D by simp
  from rnd_ge[OF one this] have d1: "1 \<le> d" by (simp add: d js_le_def)
  have R: "1 < R" using D by (simp add: R_def)
  have ed: "\<bar>d - R\<bar> \<le> R / 2 ^ 53 + h" using rnd_err[OF d] D by (simp add: h_def R_def)
  have q0: "0 \<le> q" using d1 n by (simp add: q_def)
  have nq: "n * q = d" using n by (simp add: q_def)
  have nq2: "n * (q / 2 ^ 53) = d / 2 ^ 53" unfolding nq[symmetric] by simp
  have ew: "\<bar>w - q\<bar> \<le> q / 2 ^ 53 + h" using rnd_err[OF w] q0 by (simp add: q_def n_def h_def)
  from rnd_nonneg[OF q0[unfolded q_def n_def]] w have w0: "0 \<le> w" by simp
  have "n * w \<le> n * (q + q / 2 ^ 53 + h)" using ew n(3) by (intro mult_left_mono) linarith+
  also have "\<dots> = d + d / 2 ^ 53 + n * h" by (simp only: distrib_left nq nq2)
  also have "n * h \<le> 20 * h" using n(2) h(1) by simp
  finally have NW1: "NW \<le> d + d / 2 ^ 53 + 20 * h" by (simp add: NW_def)
  have "n * (q - q / 2 ^ 53 - h) \<le> n * w" using ew n(3) by (intro mult_left_mono) linarith+
  moreover have "n * (q - q / 2 ^ 53 - h) = d - d / 2 ^ 53 - n * h"
    by (simp only: right_diff_distrib nq nq2)
  moreover have "n * h \<le> 20 * h" using n(2) h(1) by simp
  ultimately have NW2: "d - d / 2 ^ 53 - 20 * h \<le> NW" by (simp add: NW_def)
  have NW3: "NW \<le> 20 * w" "10 * w \<le> NW" using n w0 by (simp_all add: NW_def mult_right_mono)
  have "real i \<le> n - 1" using i by (simp add: n_def)
  then have "real i * w \<le> (n - 1) * w" using w0 by (rule mult_right_mono)
  then have IW1: "IW \<le> NW - w" by (simp add: IW_def NW_def left_diff_distrib)
  have IW0: "0 \<le> IW" using w0 by (simp add: IW_def)
  have "IW \<le> d" using IW1 NW1 NW3 d1 h unfolding pow2_numerals by linarith
  from rnd_between[OF is_double_zero dd IW0 this]
  obtain t where t: "rnd IW = Fin t" "0 \<le> t" "t \<le> d" by blast
  have et: "\<bar>t - IW\<bar> \<le> IW / 2 ^ 53 + h" using rnd_err[OF t(1)] IW0 by (simp add: h_def)
  have c1: "d \<le> 1001 / 1000 * R + h" using ed R unfolding pow2_numerals by linarith
  have c2: "NW \<le> 1001 / 1000 * d + 20 * h" using NW1 d1 unfolding pow2_numerals by linarith
  have c3: "t \<le> 1001 / 1000 * IW + h" using et IW0 unfolding pow2_numerals by linarith
  have c4: "IW \<le> 19 / 20 * NW" using IW1 NW3 by linarith
  have tD: "t \<le> M - m" using c1 c2 c3 c4 R h unfolding R_def[symmetric] by linarith
  have "m \<le> m + t" "m + t \<le> M" using t(2) tD by simp_all
  from rnd_between[OF m M this] obtain s where s: "rnd (m + t) = Fin s" "m \<le> s" "s \<le> M" by blast
  have "\<exists>e. rnd (s + w) = Fin e" if "Suc i < nb"
  proof -
    have "real i \<le> n - 2" using that by (simp add: n_def)
    then have "real i * w \<le> (n - 2) * w" using w0 by (rule mult_right_mono)
    then have IW2: "IW \<le> NW - 2 * w" by (simp add: IW_def NW_def left_diff_distrib)
    have c6: "999 / 1000 * R - h \<le> d" using ed R unfolding pow2_numerals by linarith
    have c7: "999 / 1000 * d - 20 * h \<le> NW" using NW2 d1 unfolding pow2_numerals by linarith
    have tw: "t + w < M - m" using c1 c2 c3 IW2 c6 c7 NW3 w0 R h unfolding R_def[symmetric] by linarith
    have es: "\<bar>s - (m + t)\<bar> \<le> overflow_bound / 2 ^ 54" using s(1) by (rule rnd_sharp)
    have Mb: "\<bar>M\<bar> \<le> overflow_bound - overflow_bound / 2 ^ 53" "\<bar>m\<bar> \<le> overflow_bound - overflow_bound / 2 ^ 53"
      using is_double_bound[OF M] is_double_bound[OF m] by (simp_all only: MAX_VALUE_eq)
    have "0 < overflow_bound" by (rule overflow_bound_pos)
    then have "\<bar>s + w\<bar> < overflow_bound - overflow_bound / 2 ^ 54"
      using tw es Mb s(2) w0 unfolding pow2_numerals by linarith
    from rnd_finite[OF this] show ?thesis by blast
  qed
  with t(1) s(1) show ?thesis by (auto simp: IW_def)
qed

lemma edges_finite:
  assumes m: "is_double m" and M: "is_double M" and mM: "m \<le> M"
    and nb: "10 \<le> nb" "nb \<le> 20" and i: "i < nb"
    and bw: "binWidth (rnd (M - m)) (Fin (real nb)) = Fin w"
  shows "\<exists>t s. rnd (real i * w) = Fin t \<and> rnd (m + t) = Fin s
           \<and> (Suc i < nb \<longrightarrow> (\<exists>e. rnd (s + w) = Fin e))"
proof -
  from width_regimes[OF mM nb bw]
  have w0: "0 \<le> w"
    and c: "M - m \<le> 1 \<and> w \<le> 1
       \<or> 1 < M - m \<and> (\<exists>d. rnd (M - m) = Fin d \<and> rnd (d / real nb) = Fin w)" by simp_all
  from c show ?thesis
  proof
    assume "M - m \<le> 1 \<and> w \<le> 1"
    then have "w \<le> 1" by simp
    moreover have "i \<le> 19" using i nb(2) by simp
    ultimately show ?thesis using edges_finite_small[OF m w0, of i] by blast
  next
    assume "1 < M - m \<and> (\<exists>d. rnd (M - m) = Fin d \<and> rnd (d / real nb) = Fin w)"
    then obtain d where "1 < M - m" "rnd (M - m) = Fin d" "rnd (d / real nb) = Fin w" by blast
    then show ?thesis using edges_finite_large[OF m M _ nb i] by blast
  qed
qed

text \<open>
  For a bin \<open>i\<close> before the last one, the end of bin \<open>i\<close> and the start of bin \<open>i + 1\<close>
  are finite and differ by rounding errors only.
\<close>

lemma end_next_start:
  assumes m: "is_double m" and M: "is_double M" and mM: "m \<le> M"
    and nb: "10 \<le> nb" "nb \<le> 20" and i: "Suc i < nb"
    and bw: "binWidth (rnd (M - m)) (Fin (real nb)) = Fin w"
  shows "\<exists>e s. edge_end (binEdge (Fin m) (Fin M) (Fin (real nb)) (Fin w) i) = Fin e
           \<and> edge_start (binEdge (Fin m) (Fin M) (Fin (real nb)) (Fin w) (Suc i)) = Fin s
           \<and> \<bar>e - s\<bar> \<le> (\<bar>m\<bar> + 20 * w) / 2 ^ 50 + 3 * MIN_VALUE"
proof -
  have w0: "0 \<le> w" using width_regimes(1)[OF mM nb bw] .
  have nb1: "1 \<le> nb" using nb(1) by simp
  have i': "i < nb" using i by simp
  from edges_finite[OF m M mM nb i' bw] i
  obtain t s e where a: "rnd (real i * w) = Fin t" "rnd (m + t) = Fin s" "rnd (s + w) = Fin e"
    by blast
  from edges_finite[OF m M mM nb i bw]
  obtain t' s' where b: "rnd (real (Suc i) * w) = Fin t'" "rnd (m + t') = Fin s'" by blast
  have i19: "Suc i \<le> 19" using i nb(2) by simp
  have 1: "edge_start (binEdge (Fin m) (Fin M) (Fin (real nb)) (Fin w) i) = Fin s"
    unfolding binEdge_start by (simp only: js_mul.simps js_add.simps a)
  have 2: "edge_end (binEdge (Fin m) (Fin M) (Fin (real nb)) (Fin w) i) = Fin e"
    unfolding binEdge_inner[OF nb1 nb(2) i] 1 by (simp only: js_add.simps a)
  have 3: "edge_start (binEdge (Fin m) (Fin M) (Fin (real nb)) (Fin w) (Suc i)) = Fin s'"
    unfolding binEdge_start by (simp only: js_mul.simps js_add.simps b)
  from end_next_start_close[OF w0 i19 a b] 2 3 show ?thesis by blast
qed

section \<open>The claims\<close>

text \<open>
  C1, as the code has it. For every sequence of finite returns whose bin width is a finite
  number other than zero (that is, \<open>max - min\<close> does not overflow to \<open>Infinity\<close> and
  \<open>range / numBins\<close> does not underflow to zero), every sample is counted in exactly one
  bin: the binning returns and the sum of the counts is the length of the input.
\<close>

theorem counts_sum:
  assumes "list_all finite_double xs" "is_fin (binWidthOf xs)" "\<not> js_eq (binWidthOf xs) (Fin 0)"
  shows "\<exists>h. histogramBins xs = Inr h \<and> sum_list (bins h) = length xs"
proof -
  obtain nb where nb: "10 \<le> nb" "nb \<le> 20" 
    and h: "histogramBins xs = Inr \<lparr>h_numBins = Fin (real nb), h_binWidth = binWidthOf xs,
       labels = map (\<lambda>i. PercentFixed2 (edge_start
                  (binEdge (Math_min xs) (Math_max xs) (Fin (real nb)) (binWidthOf xs) i))) [0..<nb],
       bins = foldl (assign (Math_min xs) (Math_max xs) (Fin (real nb)) (binWidthOf xs)) (replicate nb 0) xs,
       binEdges = map (binEdge (Math_min xs) (Math_max xs) (Fin (real nb)) (binWidthOf xs)) [0..<nb]\<rparr>"
    by (rule histogramBins_unfold)
  from assms(2,3) obtain w where w: "binWidthOf xs = Fin w" "w \<noteq> 0"
    by (cases "binWidthOf xs") (simp_all add: js_eq_def)
  have "sum_list (foldl (assign (Math_min xs) (Math_max xs) (Fin (real nb)) (Fin w)) (replicate nb 0) xs)
      = length xs"
  proof (cases "xs = []")
    case True
    then show ?thesis by simp
  next
    case False
    with assms(1) obtain m where m: "Math_min xs = Fin m" by (rule Math_min_finite)
    have "sum_list (foldl (assign (Fin m) (Math_max xs) (Fin (real nb)) (Fin w)) (replicate nb 0) xs)
        = sum_list (replicate nb 0) + length xs"
      using nb w(2) assms(1) by (intro foldl_assign_sum) simp_all
    then show ?thesis by (simp add: m)
  qed
  then show ?thesis by (simp add: h w(1))
qed

theorem counts_sum_witness:
  "list_all finite_double [Fin 0, Fin 10] \<and> is_fin (binWidthOf [Fin 0, Fin 10])
   \<and> \<not> js_eq (binWidthOf [Fin 0, Fin 10]) (Fin 0)
   \<and> sum_list (bins (projr (histogramBins [Fin 0, Fin 10]))) = 2"
proof -
  have a: "list_all finite_double [Fin 0, Fin 10]" by (rule finite_0_10)
  have b: "is_fin (binWidthOf [Fin 0, Fin 10])" by (simp add: width_0_10)
  have c: "\<not> js_eq (binWidthOf [Fin 0, Fin 10]) (Fin 0)" by (simp add: width_0_10 js_eq_def)
  from counts_sum[OF a b c] a b c show ?thesis by auto
qed

text \<open>
  C1 as stated fails on the finite input \<open>[0, 5e-324]\<close>: the range is \<open>5e-324\<close>, the
  division by 10 underflows to 0, the branch for \<open>binWidth === 0\<close> counts only the sample
  equal to the minimum, and the counts sum to 1 for 2 samples.
\<close>

theorem counts_sum_counterexample:
  "list_all finite_double [Fin 0, Fin MIN_VALUE]
   \<and> \<not> isl (histogramBins [Fin 0, Fin MIN_VALUE])
   \<and> sum_list (bins (projr (histogramBins [Fin 0, Fin MIN_VALUE]))) \<noteq> length [Fin 0, Fin MIN_VALUE]"
  using underflow_run by (auto simp: is_double_zero is_double_MIN_VALUE)

text \<open>
  C2 against the code. On \<open>[2, 2, 2]\<close> the bin width is 1, as the claim says, but the three
  samples are counted in the last bin (index 9), not in bin 0: each sample equals the maximum
  and its clamped index 0 is below \<open>numBins - 1\<close>, so the check for the maximum moves it.
\<close>

theorem degenerate_all_in_last_bin:
  "h_binWidth (projr (histogramBins [Fin 2, Fin 2, Fin 2])) = Fin 1
   \<and> bins (projr (histogramBins [Fin 2, Fin 2, Fin 2])) = [0, 0, 0, 0, 0, 0, 0, 0, 0, 3]"
  using degenerate_run by auto

text \<open>
  C3. For every input of length \<open>n\<close>, the number of bins the code computes, with the
  binary64 square root, division and ceiling, is the number \<open>clamp(ceil(sqrt(n) / 2), 10, 20)\<close>
  of the specification on exact reals, and the binning returns a histogram with that
  \<open>numBins\<close> and that many counts; \<open>n = 4\<close> and \<open>n = 400\<close> give 10 bins and
  \<open>n = 10000\<close> gives 20.
\<close>

theorem numBins_policy:
  "numBins n = Fin (real_of_int (spec_numBins n))
   \<and> (\<exists>h. histogramBins xs = Inr h \<and> h_numBins h = Fin (real_of_int (spec_numBins (length xs)))
          \<and> int (length (bins h)) = spec_numBins (length xs))
   \<and> numBins 4 = Fin 10 \<and> numBins 400 = Fin 10 \<and> numBins 10000 = Fin 20"
proof -
  obtain nb where nb: "numBins (length xs) = Fin (real nb)" "10 \<le> nb" "nb \<le> 20"
    "array_length (numBins (length xs)) = Some nb" "int nb = spec_numBins (length xs)"
    by (rule numBins_nat)
  have "length (foldl (assign (Math_min xs) (Math_max xs) (Fin (real nb)) (binWidthOf xs))
          (replicate nb 0) xs) = nb"
    using nb(2,3) by (intro foldl_assign_length) simp_all
  then have "\<exists>h. histogramBins xs = Inr h \<and> h_numBins h = Fin (real_of_int (spec_numBins (length xs)))
          \<and> int (length (bins h)) = spec_numBins (length xs)"
    using nb(4,5) numBins_eq[of "length xs"]
    by (simp add: histogramBins_def Let_def binWidthOf_def nb(1))
  then show ?thesis
    using numBins_eq[of n] numBins_le_400[of 4] numBins_le_400[of 400] numBins_gt_1444[of 10000]
    by simp
qed

text \<open>
  C4, as the code has it. For every sequence of finite returns whose bin width is a finite
  number other than zero, the binning returns and every sample equal to the maximum is counted
  in the last bin: the last count is at least the number of such samples. No sample is dropped
  or placed beyond the bins: there are \<open>numBins\<close> counts and they sum to the length of the
  input.
\<close>

theorem max_in_last_bin:
  assumes "list_all finite_double xs" "is_fin (binWidthOf xs)" "\<not> js_eq (binWidthOf xs) (Fin 0)"
  shows "\<exists>h. histogramBins xs = Inr h \<and> bins h \<noteq> []
           \<and> length (filter (\<lambda>r. js_eq r (Math_max xs)) xs) \<le> last (bins h)
           \<and> numBins (length xs) = Fin (real (length (bins h)))
           \<and> sum_list (bins h) = length xs"
proof -
  obtain nb where nb: "10 \<le> nb" "nb \<le> 20" "numBins (length xs) = Fin (real nb)"
    and h: "histogramBins xs = Inr \<lparr>h_numBins = Fin (real nb), h_binWidth = binWidthOf xs,
       labels = map (\<lambda>i. PercentFixed2 (edge_start
                  (binEdge (Math_min xs) (Math_max xs) (Fin (real nb)) (binWidthOf xs) i))) [0..<nb],
       bins = foldl (assign (Math_min xs) (Math_max xs) (Fin (real nb)) (binWidthOf xs)) (replicate nb 0) xs,
       binEdges = map (binEdge (Math_min xs) (Math_max xs) (Fin (real nb)) (binWidthOf xs)) [0..<nb]\<rparr>"
    by (rule histogramBins_unfold)
  from assms(2,3) obtain w where w: "binWidthOf xs = Fin w" "w \<noteq> 0"
    by (cases "binWidthOf xs") (simp_all add: js_eq_def)
  let ?bs = "foldl (assign (Math_min xs) (Math_max xs) (Fin (real nb)) (Fin w)) (replicate nb 0) xs"
  have l: "length ?bs = nb" using nb by (intro foldl_assign_length) simp_all
  then have ne: "?bs \<noteq> []" using nb(1) by auto
  have "length (filter (\<lambda>r. js_eq r (Math_max xs)) xs) \<le> ?bs ! (nb - 1) \<and> sum_list ?bs = length xs"
  proof (cases "xs = []")
    case True
    then show ?thesis by simp
  next
    case False
    with assms(1) obtain m where m: "Math_min xs = Fin m" by (rule Math_min_finite)
    have "replicate nb 0 ! (nb - 1) + length (filter (\<lambda>r. js_eq r (Math_max xs)) xs)
        \<le> foldl (assign (Fin m) (Math_max xs) (Fin (real nb)) (Fin w)) (replicate nb 0) xs ! (nb - 1)"
      using nb w(2) assms(1) by (intro foldl_assign_last) simp_all
    moreover have "sum_list (foldl (assign (Fin m) (Math_max xs) (Fin (real nb)) (Fin w)) (replicate nb 0) xs)
        = sum_list (replicate nb 0) + length xs"
      using nb w(2) assms(1) by (intro foldl_assign_sum) simp_all
    ultimately show ?thesis using nb(1) by (simp add: m)
  qed
  then have "length (filter (\<lambda>r. js_eq r (Math_max xs)) xs) \<le> last ?bs" "sum_list ?bs = length xs"
    using ne l by (simp_all add: last_conv_nth)
  then show ?thesis using ne l nb(3) by (simp add: h w(1))
qed

theorem max_in_last_bin_witness:
  "list_all finite_double [Fin 0, Fin 10] \<and> is_fin (binWidthOf [Fin 0, Fin 10])
   \<and> \<not> js_eq (binWidthOf [Fin 0, Fin 10]) (Fin 0)
   \<and> js_lt (Math_min [Fin 0, Fin 10]) (Math_max [Fin 0, Fin 10])
   \<and> js_eq (Fin 10) (Math_max [Fin 0, Fin 10])
   \<and> 1 \<le> last (bins (projr (histogramBins [Fin 0, Fin 10])))"
proof -
  have a: "list_all finite_double [Fin 0, Fin 10]" by (rule finite_0_10)
  have b: "is_fin (binWidthOf [Fin 0, Fin 10])" by (simp add: width_0_10)
  have c: "\<not> js_eq (binWidthOf [Fin 0, Fin 10]) (Fin 0)" by (simp add: width_0_10 js_eq_def)
  have mm: "Math_min [Fin 0, Fin 10] = Fin 0" "Math_max [Fin 0, Fin 10] = Fin 10"
    by (simp_all add: Math_min_def Math_max_def Math_min2_def Math_max2_def)
  from max_in_last_bin[OF a b c] a b c show ?thesis by (auto simp: mm js_eq_def)
qed

text \<open>
  C4 as stated fails on \<open>[0, 5e-324]\<close>, where the maximum is above the minimum: the bin width
  underflows to zero, and the sample equal to the maximum is counted in no bin.
\<close>

theorem max_in_last_bin_counterexample:
  "list_all finite_double [Fin 0, Fin MIN_VALUE]
   \<and> js_lt (Math_min [Fin 0, Fin MIN_VALUE]) (Math_max [Fin 0, Fin MIN_VALUE])
   \<and> js_eq (Fin MIN_VALUE) (Math_max [Fin 0, Fin MIN_VALUE])
   \<and> last (bins (projr (histogramBins [Fin 0, Fin MIN_VALUE]))) = 0
   \<and> sum_list (bins (projr (histogramBins [Fin 0, Fin MIN_VALUE]))) = 1"
proof -
  have mm: "Math_min [Fin 0, Fin MIN_VALUE] = Fin 0" "Math_max [Fin 0, Fin MIN_VALUE] = Fin MIN_VALUE"
    using MIN_VALUE_pos by (simp_all add: Math_min_def Math_max_def Math_min2_def Math_max2_def)
  from underflow_run MIN_VALUE_pos show ?thesis
    by (auto simp: mm js_eq_def is_double_zero is_double_MIN_VALUE)
qed

text \<open>
  C5, as the code has it. For every input the binning returns at least one bin, and the end of
  the last bin is the maximum of the input, with no condition on the input. For a non-empty
  sequence of finite returns whose bin width is finite (\<open>max - min\<close> does not overflow), the
  start of the first bin is the minimum of the input.
\<close>

theorem first_start_last_end:
  "\<exists>h. histogramBins xs = Inr h \<and> binEdges h \<noteq> []
     \<and> edge_end (last (binEdges h)) = Math_max xs
     \<and> (list_all finite_double xs \<and> xs \<noteq> [] \<and> is_fin (binWidthOf xs)
          \<longrightarrow> edge_start (hd (binEdges h)) = Math_min xs)"
proof -
  obtain nb where nb: "10 \<le> nb" "nb \<le> 20" 
    and h: "histogramBins xs = Inr \<lparr>h_numBins = Fin (real nb), h_binWidth = binWidthOf xs,
       labels = map (\<lambda>i. PercentFixed2 (edge_start
                  (binEdge (Math_min xs) (Math_max xs) (Fin (real nb)) (binWidthOf xs) i))) [0..<nb],
       bins = foldl (assign (Math_min xs) (Math_max xs) (Fin (real nb)) (binWidthOf xs)) (replicate nb 0) xs,
       binEdges = map (binEdge (Math_min xs) (Math_max xs) (Fin (real nb)) (binWidthOf xs)) [0..<nb]\<rparr>"
    by (rule histogramBins_unfold)
  let ?f = "binEdge (Math_min xs) (Math_max xs) (Fin (real nb)) (binWidthOf xs)"
  have ne: "[0..<nb] \<noteq> []" using nb(1) by simp
  have "last (map ?f [0..<nb]) = ?f (nb - 1)" using ne nb(1) by (simp add: last_map)
  then have 2: "edge_end (last (map ?f [0..<nb])) = Math_max xs"
    using nb binEdge_last[of nb "Math_min xs" "Math_max xs" "binWidthOf xs"] by simp
  have 1: "edge_start (hd (map ?f [0..<nb])) = Math_min xs"
    if a: "list_all finite_double xs" "xs \<noteq> []" "is_fin (binWidthOf xs)"
  proof -
    from a(3) obtain w where w: "binWidthOf xs = Fin w" by (cases "binWidthOf xs") simp_all
    from Math_min_ex[OF a(1,2)] obtain m where m: "Math_min xs = Fin m" "is_double m" by blast
    have "hd (map ?f [0..<nb]) = ?f 0" using nb(1) by (simp add: hd_map)
    then show ?thesis using binEdge_first[OF m(2)] by (simp add: w m(1))
  qed
  show ?thesis using 1 2 ne by (simp add: h)
qed

theorem first_start_last_end_witness:
  "list_all finite_double [Fin 0, Fin 10] \<and> [Fin 0, Fin 10] \<noteq> [] \<and> is_fin (binWidthOf [Fin 0, Fin 10])
   \<and> edge_start (hd (binEdges (projr (histogramBins [Fin 0, Fin 10])))) = Fin 0
   \<and> edge_end (last (binEdges (projr (histogramBins [Fin 0, Fin 10])))) = Fin 10
   \<and> edge_end (last (binEdges (projr (histogramBins [Fin (- MAX_VALUE), Fin MAX_VALUE])))) = Fin MAX_VALUE"
proof -
  have a: "list_all finite_double [Fin 0, Fin 10]" by (rule finite_0_10)
  have c: "is_fin (binWidthOf [Fin 0, Fin 10])" by (simp add: width_0_10)
  have mm: "Math_min [Fin 0, Fin 10] = Fin 0" "Math_max [Fin 0, Fin 10] = Fin 10"
    by (simp_all add: Math_min_def Math_max_def Math_min2_def Math_max2_def)
  have mx: "Math_max [Fin (- MAX_VALUE), Fin MAX_VALUE] = Fin MAX_VALUE"
    using MAX_VALUE_bounds(1) by (simp add: Math_max_def Math_max2_def)
  from first_start_last_end[of "[Fin 0, Fin 10]"]
    first_start_last_end[of "[Fin (- MAX_VALUE), Fin MAX_VALUE]"] a c
  show ?thesis by (auto simp: mm mx)
qed

text \<open>
  C5 as stated fails on the finite input \<open>[-MAX_VALUE, MAX_VALUE]\<close>: \<open>max - min\<close> overflows to
  \<open>Infinity\<close>, so does the bin width, \<open>0 * binWidth\<close> is \<open>NaN\<close>, and the start of the first
  bin is \<open>NaN\<close>, not the minimum.
\<close>

theorem first_start_counterexample:
  "list_all finite_double [Fin (- MAX_VALUE), Fin MAX_VALUE]
   \<and> Math_min [Fin (- MAX_VALUE), Fin MAX_VALUE] = Fin (- MAX_VALUE)
   \<and> edge_start (hd (binEdges (projr (histogramBins [Fin (- MAX_VALUE), Fin MAX_VALUE])))) = NaN"
proof -
  have mm: "Math_min [Fin (- MAX_VALUE), Fin MAX_VALUE] = Fin (- MAX_VALUE)"
    using MAX_VALUE_bounds(1) by (simp add: Math_min_def Math_min2_def)
  from overflow_run show ?thesis by (auto simp: mm is_double_MAX_VALUE)
qed

text \<open>
  C6. For every input the binning returns a histogram with exactly \<open>numBins\<close> counts,
  \<open>numBins\<close> labels and \<open>numBins\<close> bin-edge records, and every count is at least 0.
\<close>

theorem bins_labels_edges_count:
  "\<exists>h nb. histogramBins xs = Inr h \<and> numBins (length xs) = Fin (real nb)
      \<and> length (bins h) = nb \<and> length (labels h) = nb \<and> length (binEdges h) = nb
      \<and> (\<forall>c\<in>set (bins h). 0 \<le> c)"
proof -
  obtain nb h where nb: "10 \<le> nb" "nb \<le> 20" "numBins (length xs) = Fin (real nb)"
    and h: "histogramBins xs = Inr h"
      "h = \<lparr>h_numBins = Fin (real nb), h_binWidth = binWidthOf xs,
       labels = map (\<lambda>i. PercentFixed2 (edge_start
                  (binEdge (Math_min xs) (Math_max xs) (Fin (real nb)) (binWidthOf xs) i))) [0..<nb],
       bins = foldl (assign (Math_min xs) (Math_max xs) (Fin (real nb)) (binWidthOf xs)) (replicate nb 0) xs,
       binEdges = map (binEdge (Math_min xs) (Math_max xs) (Fin (real nb)) (binWidthOf xs)) [0..<nb]\<rparr>"
    using histogramBins_unfold[of xs] by metis
  have "length (bins h) = nb"
    using nb(1,2) by (simp add: h(2) foldl_assign_length)
  moreover have "length (labels h) = nb" "length (binEdges h) = nb" by (simp_all add: h(2))
  ultimately show ?thesis using h(1) nb(3) by auto
qed

theorem bins_labels_edges_count_witness:
  "length (bins (projr (histogramBins [Fin 2, Fin 2, Fin 2]))) = 10
   \<and> length (labels (projr (histogramBins [Fin 2, Fin 2, Fin 2]))) = 10
   \<and> length (binEdges (projr (histogramBins [Fin 2, Fin 2, Fin 2]))) = 10"
proof -
  have n: "numBins (length [Fin 2, Fin 2, Fin 2]) = Fin 10" by (rule numBins_le_400) simp
  from bins_labels_edges_count[of "[Fin 2, Fin 2, Fin 2]"]
  obtain h nb where h: "histogramBins [Fin 2, Fin 2, Fin 2] = Inr h"
    "numBins (length [Fin 2, Fin 2, Fin 2]) = Fin (real nb)"
    "length (bins h) = nb" "length (labels h) = nb" "length (binEdges h) = nb" by blast
  from h(2) n have "Fin (real nb) = Fin 10" by simp
  then have "nb = 10" by (rule nat_of_real_eq)
  with h show ?thesis by simp
qed

text \<open>
  C7, as the code has it. For every non-empty sequence of finite returns whose bin width is
  finite, the binning returns, and for every bin \<open>i\<close> before the last one
  \<open>bins[i].start \<le> bins[i].end\<close>, \<open>bins[i].start \<le> bins[i+1].start\<close>, and \<open>bins[i].end\<close> and
  \<open>bins[i+1].start\<close> are finite numbers at most
  \<open>2\<^sup>-\<^sup>5\<^sup>0 * (\<bar>min\<bar> + 20 * binWidth) + 3 * MIN_VALUE\<close> apart: they are two roundings of the
  same real number \<open>min + (i + 1) * binWidth\<close>, and either may be the larger.
\<close>

theorem inner_edges_monotone:
  assumes "list_all finite_double xs" "xs \<noteq> []" "is_fin (binWidthOf xs)"
  shows "\<exists>h m w. histogramBins xs = Inr h \<and> Math_min xs = Fin m \<and> h_binWidth h = Fin w \<and>
           (\<forall>i. Suc i < length (binEdges h) \<longrightarrow>
              js_le (edge_start (binEdges h ! i)) (edge_end (binEdges h ! i))
            \<and> js_le (edge_start (binEdges h ! i)) (edge_start (binEdges h ! Suc i))
            \<and> (\<exists>e s. edge_end (binEdges h ! i) = Fin e \<and> edge_start (binEdges h ! Suc i) = Fin s
                  \<and> \<bar>e - s\<bar> \<le> (\<bar>m\<bar> + 20 * w) / 2 ^ 50 + 3 * MIN_VALUE))"
proof -
  obtain nb where nb: "10 \<le> nb" "nb \<le> 20" "numBins (length xs) = Fin (real nb)"
    and h: "histogramBins xs = Inr \<lparr>h_numBins = Fin (real nb), h_binWidth = binWidthOf xs,
       labels = map (\<lambda>i. PercentFixed2 (edge_start
                  (binEdge (Math_min xs) (Math_max xs) (Fin (real nb)) (binWidthOf xs) i))) [0..<nb],
       bins = foldl (assign (Math_min xs) (Math_max xs) (Fin (real nb)) (binWidthOf xs)) (replicate nb 0) xs,
       binEdges = map (binEdge (Math_min xs) (Math_max xs) (Fin (real nb)) (binWidthOf xs)) [0..<nb]\<rparr>"
    by (rule histogramBins_unfold)
  have nb1: "1 \<le> nb" using nb(1) by simp
  from Math_min_ex[OF assms(1,2)] obtain m where m: "Math_min xs = Fin m" "Fin m \<in> set xs" "is_double m"
    by blast
  from Math_max_ex[OF assms(1,2)] obtain M where M: "Math_max xs = Fin M"
    "\<And>x. Fin x \<in> set xs \<Longrightarrow> x \<le> M" "is_double M"
    by blast
  have mM: "m \<le> M" using M(2) m(2) by blast
  from assms(3) obtain w where w: "binWidthOf xs = Fin w" by (cases "binWidthOf xs") simp_all
  have bw: "binWidth (rnd (M - m)) (Fin (real nb)) = Fin w"
    using w by (simp add: binWidthOf_def m(1) M(1) nb(3) js_sub_Fin)
  have w0: "0 \<le> w" using width_regimes(1)[OF mM nb(1,2) bw] .
  let ?f = "binEdge (Fin m) (Fin M) (Fin (real nb)) (Fin w)"
  have "js_le (edge_start (map ?f [0..<nb] ! i)) (edge_end (map ?f [0..<nb] ! i))
      \<and> js_le (edge_start (map ?f [0..<nb] ! i)) (edge_start (map ?f [0..<nb] ! Suc i))
      \<and> (\<exists>e s. edge_end (map ?f [0..<nb] ! i) = Fin e \<and> edge_start (map ?f [0..<nb] ! Suc i) = Fin s
                  \<and> \<bar>e - s\<bar> \<le> (\<bar>m\<bar> + 20 * w) / 2 ^ 50 + 3 * MIN_VALUE)"
    if "Suc i < nb" for i
    using that inner_edges_ordered[OF nb1 nb(2) that w0, of m "Fin M"]
      end_next_start[OF m(3) M(3) mM nb(1,2) that bw] by simp
  then show ?thesis by (simp add: h w m(1) M(1))
qed

theorem inner_edges_monotone_witness:
  "list_all finite_double [Fin 0, Fin 10] \<and> [Fin 0, Fin 10] \<noteq> [] \<and> is_fin (binWidthOf [Fin 0, Fin 10])
   \<and> js_le (edge_start (binEdges (projr (histogramBins [Fin 0, Fin 10])) ! 0))
            (edge_end (binEdges (projr (histogramBins [Fin 0, Fin 10])) ! 0))
   \<and> js_le (edge_start (binEdges (projr (histogramBins [Fin 0, Fin 10])) ! 0))
            (edge_start (binEdges (projr (histogramBins [Fin 0, Fin 10])) ! Suc 0))
   \<and> (\<exists>e s. edge_end (binEdges (projr (histogramBins [Fin 0, Fin 10])) ! 0) = Fin e
         \<and> edge_start (binEdges (projr (histogramBins [Fin 0, Fin 10])) ! Suc 0) = Fin s
         \<and> \<bar>e - s\<bar> \<le> (\<bar>0\<bar> + 20 * 1) / 2 ^ 50 + 3 * MIN_VALUE)"
proof -
  let ?xs = "[Fin 0, Fin 10]"
  let ?P = "\<lambda>h m w i. js_le (edge_start (binEdges h ! i)) (edge_end (binEdges h ! i))
            \<and> js_le (edge_start (binEdges h ! i)) (edge_start (binEdges h ! Suc i))
            \<and> (\<exists>e s. edge_end (binEdges h ! i) = Fin e \<and> edge_start (binEdges h ! Suc i) = Fin s
                  \<and> \<bar>e - s\<bar> \<le> (\<bar>m\<bar> + 20 * w) / 2 ^ 50 + 3 * MIN_VALUE)"
  have a: "list_all finite_double ?xs" by (rule finite_0_10)
  have b: "?xs \<noteq> []" by simp
  have c: "is_fin (binWidthOf ?xs)" by (simp add: width_0_10)
  have l: "length (binEdges (projr (histogramBins ?xs))) = 10" by (simp add: histogramBins_10)
  have hw: "h_binWidth (projr (histogramBins ?xs)) = Fin 1" by (simp add: histogramBins_10 width_0_10)
  have mm: "Math_min ?xs = Fin 0" by (simp add: Math_min_def Math_min2_def)
  from inner_edges_monotone[OF a b c] obtain h m w where h: "histogramBins ?xs = Inr h"
    "Math_min ?xs = Fin m" "h_binWidth h = Fin w"
    "\<forall>i. Suc i < length (binEdges h) \<longrightarrow> ?P h m w i" by blast
  from h(1) l have "Suc 0 < length (binEdges h)" by simp
  with h(4) have "?P h m w 0" by blast
  moreover have "m = 0" using h(2) mm by simp
  moreover have "w = 1" using h(1,3) hw by simp
  ultimately have "?P h 0 1 0" by simp
  with a c h(1) show ?thesis by simp
qed

text \<open>
  C7 as stated fails on \<open>[-1, 0, 1, 2, 3]\<close>, the example input of the specification, between
  two bins that are not the last: \<open>bins[3].end\<close> is \<open>0.6000000000000002\<close> and \<open>bins[4].start\<close>
  is \<open>0.6000000000000001\<close>, so \<open>bins[3].end \<le> bins[4].start\<close> is false. It also fails on the
  finite input \<open>[-MAX_VALUE, MAX_VALUE]\<close>, whose bin width is \<open>Infinity\<close>: \<open>bins[0].start\<close> is
  \<open>NaN\<close>, so \<open>bins[0].start \<le> bins[0].end\<close> is false.
\<close>

theorem edges_monotone_counterexample:
  "list_all finite_double [Fin (- 1), Fin 0, Fin 1, Fin 2, Fin 3]
   \<and> edge_end (binEdges (projr (histogramBins [Fin (- 1), Fin 0, Fin 1, Fin 2, Fin 3])) ! 3)
       = Fin (5404319552844597 / 9007199254740992)
   \<and> edge_start (binEdges (projr (histogramBins [Fin (- 1), Fin 0, Fin 1, Fin 2, Fin 3])) ! 4)
       = Fin (1351079888211149 / 2251799813685248)
   \<and> \<not> js_le (edge_end (binEdges (projr (histogramBins [Fin (- 1), Fin 0, Fin 1, Fin 2, Fin 3])) ! 3))
              (edge_start (binEdges (projr (histogramBins [Fin (- 1), Fin 0, Fin 1, Fin 2, Fin 3])) ! 4))
   \<and> list_all finite_double [Fin (- MAX_VALUE), Fin MAX_VALUE]
   \<and> \<not> is_fin (binWidthOf [Fin (- MAX_VALUE), Fin MAX_VALUE])
   \<and> \<not> js_le (edge_start (binEdges (projr (histogramBins [Fin (- MAX_VALUE), Fin MAX_VALUE])) ! 0))
              (edge_end (binEdges (projr (histogramBins [Fin (- MAX_VALUE), Fin MAX_VALUE])) ! 0))"
proof -
  have "is_double (- 1)" "is_double 1" using is_double_of_int[of "- 1"] is_double_of_int[of 1] by simp_all
  then have a: "list_all finite_double [Fin (- 1), Fin 0, Fin 1, Fin 2, Fin 3]"
    by (simp add: is_double_zero is_double_numeral)
  let ?ys = "[Fin (- MAX_VALUE), Fin MAX_VALUE]"
  have b: "list_all finite_double ?ys" by (simp add: is_double_MAX_VALUE)
  from overflow_run obtain h where h: "histogramBins ?ys = Inr h" "h_binWidth h = PosInf"
    "edge_start (hd (binEdges h)) = NaN" by blast
  have "length (binEdges (projr (histogramBins ?ys))) = 10" by (simp add: histogramBins_10)
  then have "binEdges h \<noteq> []" using h(1) by auto
  then have "hd (binEdges h) = binEdges h ! 0" by (rule hd_conv_nth)
  then have c: "edge_start (binEdges (projr (histogramBins ?ys)) ! 0) = NaN" using h(1,3) by simp
  have "h_binWidth (projr (histogramBins ?ys)) = binWidthOf ?ys" by (simp add: histogramBins_10)
  then have d: "\<not> is_fin (binWidthOf ?ys)" using h(1,2) by simp
  from spec_example_edges a b d show ?thesis by (simp add: js_le_def c)
qed

text \<open>
  C9. For a missing (\<open>null\<close> or \<open>undefined\<close>) or empty returns series, on a page that has the
  canvas, \<open>createOrUpdateReturnHistogram\<close> returns normally after destroying the previous
  chart, drawing the text \<open>No return data available.\<close> and logging a warning; the result is
  fixed without any of the binning computations, and no chart is created.
\<close>

theorem empty_returns_placeholder:
  assumes "dailyReturns = None \<or> dailyReturns = Some []" "canvas w"
  shows "createOrUpdateReturnHistogram w dailyReturns =
           Inr ((destroyHistogramChart w)\<lparr>canvasText := Some ''No return data available.'',
                  console := console (destroyHistogramChart w)
                     @ [''No daily returns data available for histogram.'']\<rparr>)
         \<and> histogramChart (projr (createOrUpdateReturnHistogram w dailyReturns)) = None"
proof -
  have "histogramChart (destroyHistogramChart w) = None"
    by (simp add: destroyHistogramChart_def split: option.splits)
  then show ?thesis using assms by (auto simp: createOrUpdateReturnHistogram_def Let_def)
qed

theorem empty_returns_placeholder_witness:
  "canvasText (projr (createOrUpdateReturnHistogram
      \<lparr>canvas = True, histogramChart = None, canvasText = None, console = [], destroyThrows = False, chartThrows = False\<rparr>
      (Some []))) = Some ''No return data available.''
   \<and> histogramChart (projr (createOrUpdateReturnHistogram
      \<lparr>canvas = True, histogramChart = None, canvasText = None, console = [], destroyThrows = False, chartThrows = False\<rparr>
      (Some []))) = None
   \<and> canvasText (projr (createOrUpdateReturnHistogram
      \<lparr>canvas = True, histogramChart = None, canvasText = None, console = [], destroyThrows = False, chartThrows = False\<rparr>
      None)) = Some ''No return data available.''"
  using empty_returns_placeholder[of "Some []"
      "\<lparr>canvas = True, histogramChart = None, canvasText = None, console = [], destroyThrows = False, chartThrows = False\<rparr>"]
    empty_returns_placeholder[of None
      "\<lparr>canvas = True, histogramChart = None, canvasText = None, console = [], destroyThrows = False, chartThrows = False\<rparr>"]
  by (simp add: destroyHistogramChart_def)




end
